theory Spec2Isabelle
  imports Complex_Main "HOL-Library.Word" "HOL-Library.Log_Nat"
begin

section \<open>Memory blocks and errors\<close>

text \<open>
  The C code of \<^verbatim>\<open>kitty/freetype.c\<close> works on raw byte buffers. A pointer to a buffer is
  modelled by the contents of the block it points to, \<open>None\<close> being the NULL pointer.
  Every way out of a function other than its normal return is a value of \<open>error\<close>:
  the three Python exceptions the code raises, and \<open>Undefined\<close> for an execution on which
  C gives the program no meaning (a \<^verbatim>\<open>memcpy\<close> or an array read outside its block, a
  float converted to an unsigned type that cannot hold it).
\<close>

type_synonym byte = "8 word"

datatype error =
    NoMemory
  | UnsupportedPixelMode nat
  | NoGlyphsFound
  | TooLargeForTrimming
  | Undefined

text \<open>
  \<^verbatim>\<open>memcpy(dest + doff, src + soff, n)\<close>. Copying no byte touches no memory; copying
  \<open>n > 0\<close> bytes needs both ranges inside their blocks.
\<close>

definition memcpy ::
  "byte list option \<Rightarrow> nat \<Rightarrow> byte list option \<Rightarrow> nat \<Rightarrow> nat \<Rightarrow> error + byte list option" where
  "memcpy dest doff src soff n =
     (if n = 0 then Inr dest
      else (case dest of
              None \<Rightarrow> Inl Undefined
            | Some d \<Rightarrow>
                (case src of
                   None \<Rightarrow> Inl Undefined
                 | Some s \<Rightarrow>
                     if doff + n \<le> length d \<and> soff + n \<le> length s
                     then Inr (Some (take doff d @ take n (drop soff s) @ drop (doff + n) d))
                     else Inl Undefined)))"

text \<open>Multiplication of two \<^verbatim>\<open>unsigned int\<close> values wraps around at \<open>2 ^ 32\<close>.\<close>

definition umul :: "nat \<Rightarrow> nat \<Rightarrow> nat" where
  "umul a b = (a * b) mod 2 ^ 32"

section \<open>The glyph buffer\<close>

text \<open>\<^verbatim>\<open>FT_Glyph_Metrics\<close> of FreeType: eight signed values in 26.6 fixed point.\<close>

record FT_Glyph_Metrics =
  gm_width :: int
  gm_height :: int
  horiBearingX :: int
  horiBearingY :: int
  horiAdvance :: int
  vertBearingX :: int
  vertBearingY :: int
  vertAdvance :: int

text \<open>
  \<^verbatim>\<open>typedef struct { char *buf; unsigned int width, height; FT_Glyph_Metrics metrics; } GlyphBuffer;\<close>
\<close>

record GlyphBuffer =
  g_buf :: "byte list option"
  g_width :: nat
  g_height :: nat
  g_metrics :: FT_Glyph_Metrics

text \<open>
  The row loop of \<^verbatim>\<open>ensure_space\<close>:
  \<^verbatim>\<open>for (unsigned int r = 0; r < g->height; r++) memcpy(newbuf + r * width, g->buf + r * g->width, g->width);\<close>
  Both offsets are products of \<^verbatim>\<open>unsigned int\<close> values.
\<close>

function ensure_space_rows ::
  "byte list option \<Rightarrow> nat \<Rightarrow> nat \<Rightarrow> nat \<Rightarrow> byte list option \<Rightarrow> nat \<Rightarrow> error + byte list option" where
  "ensure_space_rows oldbuf gwidth gheight width newbuf r =
     (if r < gheight then
        (case memcpy newbuf (umul r width) oldbuf (umul r gwidth) gwidth of
           Inl e \<Rightarrow> Inl e
         | Inr nb \<Rightarrow> ensure_space_rows oldbuf gwidth gheight width nb (r + 1))
      else Inr newbuf)"
  by pat_completeness auto
termination
  by (relation "measure (\<lambda>(oldbuf, gwidth, gheight, width, newbuf, r). gheight - r)") auto

declare ensure_space_rows.simps [simp del]

text \<open>
  \<^verbatim>\<open>ensure_space(g, width, height)\<close>. Whether \<^verbatim>\<open>calloc\<close> finds memory is not decided by
  the program: it is the parameter \<open>calloc_ok\<close>. The result is the returned flag and the
  buffer as the call leaves it; \<^verbatim>\<open>calloc(width * height, 1)\<close> gives a zeroed block of the
  (wrapped) product's size.
\<close>

definition ensure_space :: "bool \<Rightarrow> GlyphBuffer \<Rightarrow> nat \<Rightarrow> nat \<Rightarrow> error + (bool \<times> GlyphBuffer)" where
  "ensure_space calloc_ok g width height =
     (if g_width g \<ge> width \<and> g_height g \<ge> height then Inr (True, g)
      else if \<not> calloc_ok
        then Inr (False, g\<lparr>g_buf := None, g_width := 0, g_height := 0\<rparr>)
      else (case ensure_space_rows (g_buf g) (g_width g) (g_height g) width
                   (Some (replicate (umul width height) 0)) 0 of
              Inl e \<Rightarrow> Inl e
            | Inr newbuf \<Rightarrow>
                Inr (True, g\<lparr>g_buf := newbuf, g_width := width, g_height := height\<rparr>)))"

section \<open>Placing a bitmap\<close>

text \<open>
  The fields of FreeType's \<^verbatim>\<open>FT_Bitmap\<close> that the code reads or passes on. The buffer holds
  \<open>rows\<close> lines of \<open>pitch\<close> bytes. (A rendered glyph has a non-negative pitch.)
\<close>

record FT_Bitmap =
  bm_rows :: nat
  bm_width :: nat
  bm_pitch :: nat
  bm_buffer :: "byte list"
  bm_num_grays :: nat
  bm_pixel_mode :: nat
  bm_palette_mode :: nat

text \<open>\<^verbatim>\<open>typedef struct { size_t x, y; } BitmapPoint;\<close>\<close>

record BitmapPoint =
  pt_x :: nat
  pt_y :: nat

text \<open>\<^verbatim>\<open>#define ZERO_SUB(a, b) ((a) <= (b) ? 0 : (a) - (b))\<close>\<close>

definition ZERO_SUB :: "nat \<Rightarrow> nat \<Rightarrow> nat" where
  "ZERO_SUB a b = (if a \<le> b then 0 else a - b)"

text \<open>
  The loop of \<^verbatim>\<open>apply_bitmap\<close>:
  \<^verbatim>\<open>for (size_t sy = src_start.y, dy = dest_start.y; sy < src_height && dy < dest->height; sy++, dy++)
      memcpy(dest->buf + dest_start.x + dy * dest->width, src + sy * src_width, width);\<close>
  The source address is the start of source row \<open>sy\<close>: \<^verbatim>\<open>src_start.x\<close> is not added to it.
  The offsets are computed in \<^verbatim>\<open>size_t\<close>; those of a copy of \<open>width > 0\<close> bytes are products
  and sums of values below \<open>2 ^ 32\<close> and do not wrap around.
\<close>

function apply_bitmap_rows ::
  "byte list option \<Rightarrow> nat \<Rightarrow> nat \<Rightarrow> nat \<Rightarrow> byte list \<Rightarrow> nat \<Rightarrow> nat \<Rightarrow> nat \<Rightarrow> nat \<Rightarrow> nat
     \<Rightarrow> error + byte list option" where
  "apply_bitmap_rows destbuf dest_width dest_height dest_x src src_width src_height width sy dy =
     (if sy < src_height \<and> dy < dest_height then
        (case memcpy destbuf (dest_x + dy * dest_width) (Some src) (sy * src_width) width of
           Inl e \<Rightarrow> Inl e
         | Inr b \<Rightarrow>
             apply_bitmap_rows b dest_width dest_height dest_x src src_width src_height width
               (sy + 1) (dy + 1))
      else Inr destbuf)"
  by pat_completeness auto
termination
  by (relation "measure (\<lambda>(destbuf, dest_width, dest_height, dest_x, src, src_width, src_height,
        width, sy, dy). src_height - sy)") auto

declare apply_bitmap_rows.simps [simp del]

definition apply_bitmap ::
  "GlyphBuffer \<Rightarrow> FT_Bitmap \<Rightarrow> BitmapPoint \<Rightarrow> BitmapPoint \<Rightarrow> error + GlyphBuffer" where
  "apply_bitmap dest bitmap src_start dest_start =
     (let src = bm_buffer bitmap;
          src_height = bm_rows bitmap;
          src_width = bm_pitch bitmap;
          width = min (ZERO_SUB (g_width dest) (pt_x dest_start))
                      (ZERO_SUB src_width (pt_x src_start))
      in (case apply_bitmap_rows (g_buf dest) (g_width dest) (g_height dest) (pt_x dest_start)
                 src src_width src_height width (pt_y src_start) (pt_y dest_start) of
            Inl e \<Rightarrow> Inl e
          | Inr b \<Rightarrow> Inr (dest\<lparr>g_buf := b\<rparr>)))"

section \<open>Compositing shaped glyphs\<close>

text \<open>
  One entry of the shaper's output: \<^verbatim>\<open>sd.info[i]\<close> (HarfBuzz stores the glyph id in the
  field \<^verbatim>\<open>codepoint\<close>) together with \<^verbatim>\<open>sd.positions[i]\<close>, whose four values are in
  1/64 pixel.
\<close>

record ShapedGlyph =
  codepoint :: nat
  cluster :: nat
  mask :: nat
  x_offset :: int
  y_offset :: int
  x_advance :: int
  y_advance :: int

text \<open>
  \<^verbatim>\<open>self->face->glyph\<close>, the slot that holds the glyph loaded last: the code reads its
  \<^verbatim>\<open>metrics\<close> and its \<^verbatim>\<open>bitmap\<close>.
\<close>

record GlyphSlot =
  slot_metrics :: FT_Glyph_Metrics
  slot_bitmap :: FT_Bitmap

text \<open>\<^verbatim>\<open>FT_PIXEL_MODE_GRAY\<close> is the third value of FreeType's \<^verbatim>\<open>FT_Pixel_Mode\<close>.\<close>

definition FT_PIXEL_MODE_GRAY :: nat where
  "FT_PIXEL_MODE_GRAY = 2"

text \<open>
  The cursor \<^verbatim>\<open>x, y\<close> is a C \<^verbatim>\<open>float\<close>, and the loop computes with it in \<^verbatim>\<open>float\<close> and in
  \<^verbatim>\<open>double\<close>. A floating-point value is modelled by the rational number it stands for, and
  every operation by the exact operation followed by the rounding of its result to the
  nearest value that the type holds, a tie going to the even significand (IEEE 754
  binary32 with 24 significant bits, binary64 with 53, each expression evaluated in the
  precision of its type). The shaping values are 32-bit integers and the cursor is a
  multiple of \<open>1 / 64\<close>, so the values of this loop are zero or lie between \<open>1 / 64\<close> and
  \<open>2 ^ 64\<close> in absolute value, far inside the range of the normal numbers of both types:
  the model puts no bound on the exponent.

  \<open>ilog2 a\<close> is the exponent of a positive \<open>a\<close>: \<open>2 ^ ilog2 a \<le> a < 2 ^ (ilog2 a + 1)\<close>.
  \<open>round_at e a\<close> rounds \<open>a\<close> to the nearest multiple of \<open>2 ^ e\<close>, and \<open>round_sig p v\<close>
  rounds \<open>v\<close> to \<open>p\<close> significant bits.
\<close>

definition ilog2 :: "rat \<Rightarrow> int" where
  "ilog2 a = (if 1 \<le> a then int (floorlog 2 (nat \<lfloor>a\<rfloor>)) - 1
              else - int (floorlog 2 (nat \<lceil>1 / a\<rceil> - 1)))"

definition pow2 :: "int \<Rightarrow> rat" where
  "pow2 e = (if 0 \<le> e then 2 ^ nat e else 1 / 2 ^ nat (- e))"

definition ties_to_even :: "int \<Rightarrow> rat \<Rightarrow> int" where
  "ties_to_even q r = (if 1 / 2 < r \<or> (r = 1 / 2 \<and> odd q) then q + 1 else q)"

definition round_int :: "rat \<Rightarrow> int" where
  "round_int m = ties_to_even \<lfloor>m\<rfloor> (m - of_int \<lfloor>m\<rfloor>)"

definition round_at :: "int \<Rightarrow> rat \<Rightarrow> rat" where
  "round_at e a = of_int (round_int (a / pow2 e)) * pow2 e"

definition round_sig :: "nat \<Rightarrow> rat \<Rightarrow> rat" where
  "round_sig p v =
     (if v = 0 then 0 else sgn v * round_at (ilog2 \<bar>v\<bar> - int p + 1) \<bar>v\<bar>)"

definition to_float :: "rat \<Rightarrow> rat" where
  "to_float v = round_sig 24 v"

definition to_double :: "rat \<Rightarrow> rat" where
  "to_double v = round_sig 53 v"

text \<open>
  \<^verbatim>\<open>(float)v / 64.0\<close> for a shaping value \<open>v\<close>: the integer is converted to \<^verbatim>\<open>float\<close> and divided
  in \<^verbatim>\<open>double\<close>. \<^verbatim>\<open>x += (float)v / 64.0\<close> and \<^verbatim>\<open>y -= (float)v / 64.0\<close> add and subtract in
  \<^verbatim>\<open>double\<close> and store the result in the \<^verbatim>\<open>float\<close>. \<^verbatim>\<open>x + n\<close>, for an integer \<open>n\<close> (the pitch
  or the rows of a bitmap), converts \<open>n\<close> to \<^verbatim>\<open>float\<close> and adds in \<^verbatim>\<open>float\<close>.
\<close>

definition fixed_to_double :: "int \<Rightarrow> rat" where
  "fixed_to_double v = to_double (to_float (of_int v) / 64)"

definition add_fixed :: "rat \<Rightarrow> int \<Rightarrow> rat" where
  "add_fixed x v = to_float (to_double (x + fixed_to_double v))"

definition sub_fixed :: "rat \<Rightarrow> int \<Rightarrow> rat" where
  "sub_fixed y v = to_float (to_double (y - fixed_to_double v))"

definition float_plus :: "rat \<Rightarrow> nat \<Rightarrow> rat" where
  "float_plus x n = to_float (x + to_float (of_nat n))"

text \<open>\<^verbatim>\<open>ceilf\<close> and \<^verbatim>\<open>roundf\<close> (halves away from zero) of \<^verbatim>\<open>math.h\<close>; both are exact.\<close>

definition ceilf :: "rat \<Rightarrow> rat" where
  "ceilf v = of_int \<lceil>v\<rceil>"

definition roundf :: "rat \<Rightarrow> rat" where
  "roundf v = (if v < 0 then - of_int \<lfloor>- v + 1 / 2\<rfloor> else of_int \<lfloor>v + 1 / 2\<rfloor>)"

text \<open>
  A cast from float to an unsigned integer type of \<open>bits\<close> bits drops the fraction; C
  defines it only when the value so obtained fits the type.
\<close>

definition float_to_unsigned :: "nat \<Rightarrow> rat \<Rightarrow> nat option" where
  "float_to_unsigned bits v =
     (let t = (if v < 0 then \<lceil>v\<rceil> else \<lfloor>v\<rfloor>)
      in if 0 \<le> t \<and> t < 2 ^ bits then Some (nat t) else None)"

text \<open>
  The origins of a copy, from the cursor:
  \<^verbatim>\<open>src.x = (size_t)(x < 0 ? ceilf(-x) : 0);  src.y = (size_t)(y < 0 ? ceilf(-y) : 0);
  dest.x = (size_t)(x < 0 ? 0 : roundf(x)); dest.y = (size_t)(y < 0 ? 0 : roundf(y));\<close>
  There are none when one of the four casts is undefined.
\<close>

definition origins :: "rat \<Rightarrow> rat \<Rightarrow> (BitmapPoint \<times> BitmapPoint) option" where
  "origins x y =
     (case float_to_unsigned 64 (if x < 0 then ceilf (- x) else 0) of
        None \<Rightarrow> None
      | Some src_x \<Rightarrow>
     (case float_to_unsigned 64 (if y < 0 then ceilf (- y) else 0) of
        None \<Rightarrow> None
      | Some src_y \<Rightarrow>
     (case float_to_unsigned 64 (if x < 0 then 0 else roundf x) of
        None \<Rightarrow> None
      | Some dest_x \<Rightarrow>
     (case float_to_unsigned 64 (if y < 0 then 0 else roundf y) of
        None \<Rightarrow> None
      | Some dest_y \<Rightarrow>
          Some (\<lparr>pt_x = src_x, pt_y = src_y\<rparr>, \<lparr>pt_x = dest_x, pt_y = dest_y\<rparr>)))))"

text \<open>
  The local variables of \<^verbatim>\<open>draw_complex_glyph\<close> that live across iterations of its loop,
  and the face's glyph slot.
\<close>

record DrawState =
  st_x :: rat
  st_y :: rat
  st_width :: nat
  st_height :: nat
  st_g :: GlyphBuffer
  st_glyph :: GlyphSlot

text \<open>
  One iteration of the loop, for the glyph at index \<open>i\<close>. \<open>load\<close> is the rasterizer:
  what \<^verbatim>\<open>_load_char\<close> leaves in the glyph slot, given the slot before and the glyph id
  (the code ignores the flag \<^verbatim>\<open>_load_char\<close> returns). \<open>calloc_ok i\<close> tells whether the
  allocation of iteration \<open>i\<close>, if there is one, finds memory.
\<close>

definition glyph_step ::
  "(GlyphSlot \<Rightarrow> nat \<Rightarrow> GlyphSlot) \<Rightarrow> (nat \<Rightarrow> bool) \<Rightarrow> nat \<Rightarrow> DrawState \<Rightarrow> ShapedGlyph
     \<Rightarrow> error + DrawState" where
  "glyph_step load calloc_ok i st gl =
     (if codepoint gl = 0 then Inr st
      else
        let glyph = load (st_glyph st) (codepoint gl);
            g0 = (if i = 0 then (st_g st)\<lparr>g_metrics := slot_metrics glyph\<rparr> else st_g st);
            x = add_fixed (st_x st) (x_offset gl);
            y = sub_fixed (st_y st) (y_offset gl);
            bitmap = slot_bitmap glyph
        in
        (case float_to_unsigned 32 (ceilf (float_plus x (bm_pitch bitmap))) of
           None \<Rightarrow> Inl Undefined
         | Some w \<Rightarrow>
        (case float_to_unsigned 32 (ceilf (float_plus y (bm_rows bitmap))) of
           None \<Rightarrow> Inl Undefined
         | Some h \<Rightarrow>
        (let width = max (st_width st) w;
             height = max (st_height st) h
         in
        (case ensure_space (calloc_ok i) g0 width height of
           Inl e \<Rightarrow> Inl e
         | Inr (False, g1) \<Rightarrow> Inl NoMemory
         | Inr (True, g1) \<Rightarrow>
        (case origins x y of
           None \<Rightarrow> Inl Undefined
         | Some (src, dest) \<Rightarrow>
        (if bm_pixel_mode bitmap \<noteq> FT_PIXEL_MODE_GRAY
         then Inl (UnsupportedPixelMode (bm_pixel_mode bitmap))
         else
        (case apply_bitmap g1 bitmap src dest of
           Inl e \<Rightarrow> Inl e
         | Inr g2 \<Rightarrow>
             Inr (st\<lparr>st_x := add_fixed x (x_advance gl),
                     st_y := 0,
                     st_width := width,
                     st_height := height,
                     st_g := g2,
                     st_glyph := glyph\<rparr>)))))))))"

text \<open>\<^verbatim>\<open>for (unsigned i = 0; i < sd.length; i++) { ... }\<close>, from index \<open>i\<close> on.\<close>

fun draw_loop ::
  "(GlyphSlot \<Rightarrow> nat \<Rightarrow> GlyphSlot) \<Rightarrow> (nat \<Rightarrow> bool) \<Rightarrow> nat \<Rightarrow> DrawState \<Rightarrow> ShapedGlyph list
     \<Rightarrow> error + DrawState" where
  "draw_loop load calloc_ok i st [] = Inr st"
| "draw_loop load calloc_ok i st (gl # gls) =
     (case glyph_step load calloc_ok i st gl of
        Inl e \<Rightarrow> Inl e
      | Inr st' \<Rightarrow> draw_loop load calloc_ok (i + 1) st' gls)"

definition zero_metrics :: FT_Glyph_Metrics where
  "zero_metrics = \<lparr>gm_width = 0, gm_height = 0, horiBearingX = 0, horiBearingY = 0,
     horiAdvance = 0, vertBearingX = 0, vertBearingY = 0, vertAdvance = 0\<rparr>"

text \<open>
  The locals as the loop finds them: \<^verbatim>\<open>float x = 0, y = 0; unsigned int width = 0, height = 0;
  GlyphBuffer g = {0};\<close> and the slot as the face holds it when the call starts.
\<close>

definition initial_state :: "GlyphSlot \<Rightarrow> DrawState" where
  "initial_state slot =
     \<lparr>st_x = 0, st_y = 0, st_width = 0, st_height = 0,
      st_g = \<lparr>g_buf = None, g_width = 0, g_height = 0, g_metrics = zero_metrics\<rparr>,
      st_glyph = slot\<rparr>"

text \<open>
  \<^verbatim>\<open>draw_complex_glyph\<close> on the shaper's output for the text: the bytes, the metrics, the width
  and the height it returns. The byte array is made of the first \<^verbatim>\<open>g.width * g.height\<close>
  bytes of the buffer.
\<close>

definition draw_complex_glyph ::
  "(GlyphSlot \<Rightarrow> nat \<Rightarrow> GlyphSlot) \<Rightarrow> (nat \<Rightarrow> bool) \<Rightarrow> GlyphSlot \<Rightarrow> ShapedGlyph list
     \<Rightarrow> error + (byte list \<times> FT_Glyph_Metrics \<times> nat \<times> nat)" where
  "draw_complex_glyph load calloc_ok slot sd =
     (case draw_loop load calloc_ok 0 (initial_state slot) sd of
        Inl e \<Rightarrow> Inl e
      | Inr st \<Rightarrow>
          (case g_buf (st_g st) of
             None \<Rightarrow> Inl NoGlyphsFound
           | Some b \<Rightarrow>
               if umul (g_width (st_g st)) (g_height (st_g st)) \<le> length b
               then Inr (take (umul (g_width (st_g st)) (g_height (st_g st))) b,
                         g_metrics (st_g st), g_width (st_g st), g_height (st_g st))
               else Inl Undefined))"

section \<open>Trimming a bitmap to the cell width\<close>

text \<open>
  \<^verbatim>\<open>trim_to_width\<close> takes a Python \<^verbatim>\<open>Bitmap\<close>, the structure that \<^verbatim>\<open>bitmap()\<close> fills field by
  field from an \<^verbatim>\<open>FT_Bitmap\<close>, and works in \<^verbatim>\<open>unsigned long\<close>: subtraction wraps around
  at \<open>2 ^ 64\<close>, and \<^verbatim>\<open>long x = width - 1\<close> reads the wrapped difference as a signed value.
  The code takes the rows of the source to be \<^verbatim>\<open>width\<close> bytes apart. Its other products and
  sums are offsets into byte arrays; they are checked against the arrays' sizes, which
  are below \<open>2 ^ 63\<close>, and are taken without wrap-around.
\<close>

type_synonym Bitmap = FT_Bitmap

definition ulong_sub :: "nat \<Rightarrow> nat \<Rightarrow> nat" where
  "ulong_sub a b = (a + 2 ^ 64 - b) mod 2 ^ 64"

definition to_long :: "nat \<Rightarrow> int" where
  "to_long v = (if v < 2 ^ 63 then int v else int v - 2 ^ 64)"

text \<open>
  The inner loop, over the pixels of column \<open>x\<close>, from offset \<open>y\<close> on:
  \<^verbatim>\<open>for (unsigned long y = 0; y < rows * width; y += width) {
      if (src[x + y] > 200) { column_has_text = true; break; } }\<close>
  The result is the value of \<^verbatim>\<open>column_has_text\<close> after it.
\<close>

function scan_column :: "byte list \<Rightarrow> nat \<Rightarrow> nat \<Rightarrow> nat \<Rightarrow> nat \<Rightarrow> error + bool" where
  "scan_column src x rows width y =
     (if y < rows * width then
        (if x + y < length src then
           (if src ! (x + y) > 200 then Inr True
            else scan_column src x rows width (y + width))
         else Inl Undefined)
      else Inr False)"
  by pat_completeness auto
termination
proof (relation "measure (\<lambda>(src, x, rows, width, y). rows * width - y)")
  show "wf (measure (\<lambda>(src, x, rows, width, y). rows * width - y))"
    by simp
next
  fix src :: "byte list" and x rows width y :: nat
  assume "y < rows * width"
  then have "0 < width"
    by (cases width) simp_all
  with \<open>y < rows * width\<close>
  show "((src, x, rows, width, y + width), (src, x, rows, width, y))
          \<in> measure (\<lambda>(src, x, rows, width, y). rows * width - y)"
    by simp
qed

declare scan_column.simps [simp del]

text \<open>
  The outer loop, from column \<open>x\<close> on:
  \<^verbatim>\<open>for (long x = width - 1; !column_has_text && x > -1 && rtrim < extra; x--) {
      ...inner loop...
      if (!column_has_text) rtrim++; }\<close>
  The result is \<^verbatim>\<open>rtrim\<close> after it.
\<close>

function scan_columns ::
  "byte list \<Rightarrow> nat \<Rightarrow> nat \<Rightarrow> nat \<Rightarrow> int \<Rightarrow> bool \<Rightarrow> nat \<Rightarrow> error + nat" where
  "scan_columns src rows width extra x column_has_text rtrim =
     (if \<not> column_has_text \<and> x > -1 \<and> rtrim < extra then
        (case scan_column src (nat x) rows width 0 of
           Inl e \<Rightarrow> Inl e
         | Inr has_text \<Rightarrow>
             scan_columns src rows width extra (x - 1) has_text
               (if \<not> has_text then rtrim + 1 else rtrim))
      else Inr rtrim)"
  by pat_completeness auto
termination
  by (relation "measure (\<lambda>(src, rows, width, extra, x, column_has_text, rtrim). nat (x + 1))") auto

declare scan_columns.simps [simp del]

text \<open>
  The copy loop, from row \<open>y\<close> on:
  \<^verbatim>\<open>for (unsigned long y = 0; y < rows; y++) memcpy(dest + y*cell_width, src + ltrim + y*width, cell_width);\<close>
\<close>

function trim_rows ::
  "byte list option \<Rightarrow> byte list \<Rightarrow> nat \<Rightarrow> nat \<Rightarrow> nat \<Rightarrow> nat \<Rightarrow> nat \<Rightarrow> error + byte list option" where
  "trim_rows dest src ltrim width cell_width rows y =
     (if y < rows then
        (case memcpy dest (y * cell_width) (Some src) (ltrim + y * width) cell_width of
           Inl e \<Rightarrow> Inl e
         | Inr d \<Rightarrow> trim_rows d src ltrim width cell_width rows (y + 1))
      else Inr dest)"
  by pat_completeness auto
termination
  by (relation "measure (\<lambda>(dest, src, ltrim, width, cell_width, rows, y). rows - y)") auto

declare trim_rows.simps [simp del]

text \<open>
  \<^verbatim>\<open>trim_to_width(bitmap, cell_width)\<close>. The new byte array
  (\<^verbatim>\<open>PyByteArray_FromStringAndSize(NULL, cell_width * rows)\<close>) is not initialised: \<open>alloc_ok\<close>
  tells whether it could be made and \<open>fresh\<close> what its bytes hold at first. The result
  takes \<^verbatim>\<open>rows\<close> and the last three fields from the argument.
\<close>

definition trim_to_width :: "bool \<Rightarrow> (nat \<Rightarrow> byte) \<Rightarrow> Bitmap \<Rightarrow> nat \<Rightarrow> error + Bitmap" where
  "trim_to_width alloc_ok fresh bitmap cell_width =
     (let rows = bm_rows bitmap;
          width = bm_width bitmap;
          extra = ulong_sub width cell_width
      in if extra \<ge> cell_width then Inl TooLargeForTrimming
         else if \<not> alloc_ok then Inl NoMemory
         else
           (case scan_columns (bm_buffer bitmap) rows width extra (to_long (ulong_sub width 1))
                   False 0 of
              Inl e \<Rightarrow> Inl e
            | Inr rtrim0 \<Rightarrow>
                (let rtrim = min extra rtrim0;
                     ltrim = extra - rtrim
                 in (case trim_rows (Some (map fresh [0..<cell_width * rows])) (bm_buffer bitmap)
                            ltrim width cell_width rows 0 of
                       Inl e \<Rightarrow> Inl e
                     | Inr None \<Rightarrow> Inl Undefined
                     | Inr (Some dest) \<Rightarrow>
                         Inr (bitmap\<lparr>bm_width := cell_width, bm_pitch := cell_width,
                                     bm_buffer := dest\<rparr>)))))"

section \<open>Well-formed buffers and their pixels\<close>

text \<open>
  A canvas whose buffer holds \<open>width * height\<close> bytes (or has no buffer and no area), a
  bitmap whose buffer holds \<open>rows\<close> lines of \<open>pitch\<close> bytes, and the pixel of a canvas at
  column \<open>x\<close> of row \<open>y\<close>, if the canvas has one.
\<close>

definition canvas_ok :: "GlyphBuffer \<Rightarrow> bool" where
  "canvas_ok g =
     (case g_buf g of
        None \<Rightarrow> g_width g * g_height g = 0
      | Some d \<Rightarrow> length d = g_width g * g_height g)"

definition bitmap_ok :: "FT_Bitmap \<Rightarrow> bool" where
  "bitmap_ok b = (length (bm_buffer b) = bm_rows b * bm_pitch b)"

definition pixel :: "GlyphBuffer \<Rightarrow> nat \<Rightarrow> nat \<Rightarrow> byte option" where
  "pixel g x y =
     (case g_buf g of
        None \<Rightarrow> None
      | Some d \<Rightarrow>
          if x < g_width g \<and> y < g_height g \<and> y * g_width g + x < length d
          then Some (d ! (y * g_width g + x)) else None)"


section \<open>The trim as the specification words it\<close>

text \<open>
  The spec's description of the right trim, to compare the loops of \<^verbatim>\<open>trim_to_width\<close>
  with: a column is blank when every pixel of it, across all rows, is at most 200;
  \<open>blank_count\<close> is the number of consecutive blank columns from the rightmost one
  leftwards; the right trim is that number capped at \<open>extra = width - cell_width\<close>.
\<close>

definition blank_column :: "byte list \<Rightarrow> nat \<Rightarrow> nat \<Rightarrow> nat \<Rightarrow> bool" where
  "blank_column src rows width x = list_all (\<lambda>y. src ! (y * width + x) \<le> 200) [0..<rows]"

definition blank_count :: "byte list \<Rightarrow> nat \<Rightarrow> nat \<Rightarrow> nat" where
  "blank_count src rows width = length (takeWhile (blank_column src rows width) (rev [0..<width]))"

definition spec_right_trim :: "byte list \<Rightarrow> nat \<Rightarrow> nat \<Rightarrow> nat \<Rightarrow> nat" where
  "spec_right_trim src rows width cell_width =
     min (width - cell_width) (blank_count src rows width)"

section \<open>Inputs for the examples\<close>

definition canvas_3x1 :: GlyphBuffer where
  "canvas_3x1 = \<lparr>g_buf = Some [0, 0, 0], g_width = 3, g_height = 1, g_metrics = zero_metrics\<rparr>"

definition row_10_20_30 :: FT_Bitmap where
  "row_10_20_30 = \<lparr>bm_rows = 1, bm_width = 3, bm_pitch = 3, bm_buffer = [10, 20, 30],
     bm_num_grays = 256, bm_pixel_mode = 2, bm_palette_mode = 0\<rparr>"

text \<open>A glyph of one pixel of full intensity, and a rasterizer that renders every glyph so.\<close>

definition dot_bitmap :: FT_Bitmap where
  "dot_bitmap = \<lparr>bm_rows = 1, bm_width = 1, bm_pitch = 1, bm_buffer = [255],
     bm_num_grays = 256, bm_pixel_mode = 2, bm_palette_mode = 0\<rparr>"

definition dot_metrics :: FT_Glyph_Metrics where
  "dot_metrics = \<lparr>gm_width = 64, gm_height = 64, horiBearingX = 0, horiBearingY = 64,
     horiAdvance = 64, vertBearingX = 0, vertBearingY = 0, vertAdvance = 64\<rparr>"

definition dot_glyph :: GlyphSlot where
  "dot_glyph = \<lparr>slot_metrics = dot_metrics, slot_bitmap = dot_bitmap\<rparr>"

definition empty_glyph :: GlyphSlot where
  "empty_glyph = \<lparr>slot_metrics = zero_metrics,
     slot_bitmap = \<lparr>bm_rows = 0, bm_width = 0, bm_pitch = 0, bm_buffer = [],
       bm_num_grays = 0, bm_pixel_mode = 0, bm_palette_mode = 0\<rparr>\<rparr>"

definition load_dot :: "GlyphSlot \<Rightarrow> nat \<Rightarrow> GlyphSlot" where
  "load_dot slot gid = dot_glyph"

text \<open>
  A rasterizer that renders every glyph as the row 10, 20, 30, and a shaped glyph that
  starts one pixel left of the cursor.
\<close>

definition load_row :: "GlyphSlot \<Rightarrow> nat \<Rightarrow> GlyphSlot" where
  "load_row slot gid = \<lparr>slot_metrics = dot_metrics, slot_bitmap = row_10_20_30\<rparr>"

definition glyph_shifted_left :: ShapedGlyph where
  "glyph_shifted_left = \<lparr>codepoint = 7, cluster = 0, mask = 0, x_offset = - 64, y_offset = 0,
     x_advance = 192, y_advance = 0\<rparr>"

text \<open>
  The canvas before the first glyph, a rasterizer that renders every glyph as a bitmap
  of no rows whose pitch is 1, and a shaped glyph that puts the cursor at column 65535,
  65536 rows below the baseline.
\<close>

definition canvas_0x0 :: GlyphBuffer where
  "canvas_0x0 = \<lparr>g_buf = None, g_width = 0, g_height = 0, g_metrics = zero_metrics\<rparr>"

definition load_rowless :: "GlyphSlot \<Rightarrow> nat \<Rightarrow> GlyphSlot" where
  "load_rowless slot gid = \<lparr>slot_metrics = dot_metrics,
     slot_bitmap = \<lparr>bm_rows = 0, bm_width = 1, bm_pitch = 1, bm_buffer = [],
       bm_num_grays = 256, bm_pixel_mode = 2, bm_palette_mode = 0\<rparr>\<rparr>"

definition glyph_at_65535_65536 :: ShapedGlyph where
  "glyph_at_65535_65536 = \<lparr>codepoint = 1, cluster = 0, mask = 0, x_offset = 4194240,
     y_offset = - 4194304, x_advance = 64, y_advance = 0\<rparr>"


text \<open>An allocator that always finds memory.\<close>

definition calloc_always :: "nat \<Rightarrow> bool" where
  "calloc_always i = True"

text \<open>A shaped glyph with zero offsets: its glyph id and its horizontal advance.\<close>

definition shaped :: "nat \<Rightarrow> int \<Rightarrow> ShapedGlyph" where
  "shaped gid adv = \<lparr>codepoint = gid, cluster = 0, mask = 0, x_offset = 0, y_offset = 0,
     x_advance = adv, y_advance = 0\<rparr>"

text \<open>A shaped glyph of id 0 whose offsets and advance are not zero.\<close>

definition stray_glyph :: ShapedGlyph where
  "stray_glyph = \<lparr>codepoint = 0, cluster = 3, mask = 0, x_offset = 128, y_offset = -64,
     x_advance = 512, y_advance = 0\<rparr>"

definition canvas_2x1 :: GlyphBuffer where
  "canvas_2x1 = \<lparr>g_buf = Some [7, 9], g_width = 2, g_height = 1, g_metrics = dot_metrics\<rparr>"

text \<open>
  For the trim: what a byte array holds before it is written, a bitmap of one pixel, and
  the line of ten pixels of the spec's scenario C.
\<close>

definition stale :: "nat \<Rightarrow> byte" where
  "stale i = 170"

definition one_pixel :: Bitmap where
  "one_pixel = \<lparr>bm_rows = 1, bm_width = 1, bm_pitch = 1, bm_buffer = [0],
     bm_num_grays = 256, bm_pixel_mode = 2, bm_palette_mode = 0\<rparr>"

definition line_of_ten :: Bitmap where
  "line_of_ten = \<lparr>bm_rows = 1, bm_width = 10, bm_pitch = 10,
     bm_buffer = [0, 0, 0, 255, 0, 0, 0, 0, 0, 255],
     bm_num_grays = 256, bm_pixel_mode = 2, bm_palette_mode = 0\<rparr>"

section \<open>Evaluation\<close>

lemma floor_rat_numeral_div [simp]:
  "\<lfloor>(numeral a :: rat) / numeral b\<rfloor> = numeral a div numeral b"
  by (metis floor_divide_of_int_eq of_int_numeral)

lemmas place_eval = apply_bitmap_def apply_bitmap_rows.simps memcpy_def ZERO_SUB_def

lemma ceiling_rat_numeral_div [simp]:
  "\<lceil>(numeral a :: rat) / numeral b\<rceil> = - ((- numeral a) div numeral b)"
  by (metis ceiling_divide_eq_div of_int_numeral)

lemmas float_eval = to_float_def to_double_def round_sig_def round_at_def round_int_def
  ties_to_even_def ilog2_def compute_floorlog pow2_def
  fixed_to_double_def add_fixed_def sub_fixed_def float_plus_def

lemmas step_eval = draw_complex_glyph_def initial_state_def glyph_step_def origins_def
  ceilf_def roundf_def float_to_unsigned_def ensure_space_def ensure_space_rows.simps umul_def
  FT_PIXEL_MODE_GRAY_def calloc_always_def Let_def place_eval

text \<open>The cursor positions and the sums of the examples, none of which is rounded but one.\<close>

lemma cursor_values:
  "add_fixed 0 0 = 0" "sub_fixed 0 0 = 0" "add_fixed 0 512 = 8" "add_fixed 8 0 = 8"
  "float_plus 0 (Suc 0) = 1" "float_plus 8 (Suc 0) = 9"
  "add_fixed 0 (- 64) = - 1" "float_plus (- 1) 3 = 2" "add_fixed (- 1) 192 = 2"
  "add_fixed 0 4194240 = 65535" "sub_fixed 0 (- 4194304) = 65536"
  "float_plus 65535 (Suc 0) = 65536" "float_plus 65536 0 = 65536"
  "add_fixed 0 536870880 = 16777215 / 2" "float_plus (16777215 / 2) (Suc 0) = 8388608"
  by (simp_all add: float_eval)

lemmas draw_eval = step_eval cursor_values

section \<open>Copying into a block\<close>

lemma memcpy_zero [simp]: "memcpy dest doff src soff 0 = Inr dest"
  by (simp add: memcpy_def)

lemma memcpy_Some:
  assumes "doff + n \<le> length d" "soff + n \<le> length s"
  shows "memcpy (Some d) doff (Some s) soff n =
           Inr (Some (take doff d @ take n (drop soff s) @ drop (doff + n) d))"
  using assms by (simp add: memcpy_def)

lemma length_copied:
  assumes "doff + n \<le> length d" "soff + n \<le> length s"
  shows "length (take doff d @ take n (drop soff s) @ drop (doff + n) d) = length d"
  using assms by simp

lemma nth_copied:
  assumes "doff + n \<le> length d" "soff + n \<le> length s" "q < length d"
  shows "(take doff d @ take n (drop soff s) @ drop (doff + n) d) ! q =
           (if doff \<le> q \<and> q < doff + n then s ! (soff + (q - doff)) else d ! q)"
proof -
  have l1: "length (take doff d) = doff" using assms by simp
  have l2: "length (take n (drop soff s)) = n" using assms by simp
  show ?thesis
  proof (cases "q < doff")
    case True
    then show ?thesis by (simp add: nth_append l1 del: length_take)
  next
    case False
    show ?thesis
    proof (cases "q < doff + n")
      case True
      with False have "q - doff < n" by simp
      with False True assms show ?thesis
        by (simp add: nth_append l1 l2 del: length_take)
    next
      case False
      then have "(take doff d @ take n (drop soff s) @ drop (doff + n) d) ! q =
                 drop (doff + n) d ! (q - doff - n)"
        by (simp add: nth_append l1 l2 del: length_take)
      also have "\<dots> = d ! q" using False assms by simp
      finally show ?thesis using False by simp
    qed
  qed
qed

lemma row_offset_in_range:
  fixes W :: nat
  assumes "x < W" "dx + n \<le> W"
  shows "(dx + dy * W \<le> y * W + x \<and> y * W + x < dx + dy * W + n) \<longleftrightarrow> (y = dy \<and> dx \<le> x \<and> x < dx + n)"
proof (cases "y = dy")
  case True
  then show ?thesis by auto
next
  case False
  then consider "y < dy" | "dy < y" by linarith
  then show ?thesis
  proof cases
    case 1
    then have "Suc y * W \<le> dy * W" by (intro mult_le_mono1) simp
    with assms 1 show ?thesis by auto
  next
    case 2
    then have "Suc dy * W \<le> y * W" by (intro mult_le_mono1) simp
    with assms 2 show ?thesis by auto
  qed
qed

lemma pixel_index_less:
  fixes W :: nat
  assumes "x < W" "y < H"
  shows "y * W + x < W * H"
proof -
  have "y * W + x < Suc y * W" using assms by simp
  also have "\<dots> \<le> H * W" using assms by (intro mult_le_mono1) simp
  finally show ?thesis by (simp add: mult.commute)
qed

lemma apply_bitmap_rows_no_width:
  "apply_bitmap_rows b W H dx src sw sh 0 sy dy = Inr b"
  by (induction b W H dx src sw sh "0::nat" sy dy rule: apply_bitmap_rows.induct)
     (simp add: apply_bitmap_rows.simps)

lemma apply_bitmap_rows_spec:
  assumes "length d = W * H" "length src = sh * sw" "n \<le> sw" "dx + n \<le> W"
  shows "\<exists>d'. apply_bitmap_rows (Some d) W H dx src sw sh n sy dy = Inr (Some d') \<and>
           length d' = length d \<and>
           (\<forall>x<W. \<forall>y<H. d' ! (y * W + x) =
              (if dy \<le> y \<and> sy + (y - dy) < sh \<and> dx \<le> x \<and> x < dx + n
               then src ! ((sy + (y - dy)) * sw + (x - dx)) else d ! (y * W + x)))"
  using assms
proof (induction "Some d" W H dx src sw sh n sy dy arbitrary: d rule: apply_bitmap_rows.induct)
  case (1 W H dx src sw sh n sy dy)
  show ?case
  proof (cases "sy < sh \<and> dy < H")
    case False
    then show ?thesis by (auto simp: apply_bitmap_rows.simps)
  next
    case True
    let ?off = "dx + dy * W"
    let ?d1 = "take ?off d @ take n (drop (sy * sw) src) @ drop (?off + n) d"
    have dst: "?off + n \<le> length d"
    proof -
      have "dy * W + (dx + n) \<le> dy * W + W" using 1(5) by simp
      also have "\<dots> = Suc dy * W" by simp
      also have "\<dots> \<le> H * W" using True by (intro mult_le_mono1) simp
      finally show ?thesis using 1(2) by (simp add: mult.commute add.commute add.left_commute)
    qed
    have src: "sy * sw + n \<le> length src"
    proof -
      have "sy * sw + n \<le> sy * sw + sw" using 1(4) by simp
      also have "\<dots> = Suc sy * sw" by simp
      also have "\<dots> \<le> sh * sw" using True by (intro mult_le_mono1) simp
      finally show ?thesis using 1(3) by simp
    qed
    have m: "memcpy (Some d) ?off (Some src) (sy * sw) n = Inr (Some ?d1)"
      using dst src by (rule memcpy_Some)
    have len1: "length ?d1 = length d" using dst src by (rule length_copied)
    from 1(1)[OF True m] len1 1(2,3,4,5)
    obtain d' where d': "apply_bitmap_rows (Some ?d1) W H dx src sw sh n (sy + 1) (dy + 1) = Inr (Some d')"
      "length d' = length ?d1"
      "\<forall>x<W. \<forall>y<H. d' ! (y * W + x) =
              (if dy + 1 \<le> y \<and> (sy + 1) + (y - (dy + 1)) < sh \<and> dx \<le> x \<and> x < dx + n
               then src ! (((sy + 1) + (y - (dy + 1))) * sw + (x - dx)) else ?d1 ! (y * W + x))"
      by auto
    have run: "apply_bitmap_rows (Some d) W H dx src sw sh n sy dy = Inr (Some d')"
      using True m d'(1) by (subst apply_bitmap_rows.simps) simp
    have px: "d' ! (y * W + x) =
              (if dy \<le> y \<and> sy + (y - dy) < sh \<and> dx \<le> x \<and> x < dx + n
               then src ! ((sy + (y - dy)) * sw + (x - dx)) else d ! (y * W + x))"
      if "x < W" "y < H" for x y
    proof -
      have q: "y * W + x < length d" using that 1(2) by (simp add: pixel_index_less)
      have one: "?d1 ! (y * W + x) =
          (if y = dy \<and> dx \<le> x \<and> x < dx + n then src ! (sy * sw + (x - dx)) else d ! (y * W + x))"
      proof -
        have "?d1 ! (y * W + x) = (if ?off \<le> y * W + x \<and> y * W + x < ?off + n
            then src ! (sy * sw + (y * W + x - ?off)) else d ! (y * W + x))"
          using dst src q by (rule nth_copied)
        moreover have "(?off \<le> y * W + x \<and> y * W + x < ?off + n) \<longleftrightarrow> (y = dy \<and> dx \<le> x \<and> x < dx + n)"
          using that(1) 1(5) by (rule row_offset_in_range)
        ultimately show ?thesis by auto
      qed
      consider "y < dy" | "y = dy" | "dy < y" by linarith
      then show ?thesis
      proof cases
        case 1
        then show ?thesis using d'(3) that one by auto
      next
        case 2
        then show ?thesis using d'(3) that one True by auto
      next
        case 3
        then have "sy + 1 + (y - (dy + 1)) = sy + (y - dy)" by simp
        then show ?thesis using d'(3) that one 3 by auto
      qed
    qed
    show ?thesis using run d'(2) len1 px by auto
  qed
qed

section \<open>What placing a bitmap writes\<close>

lemma apply_bitmap_rows_no_rows:
  "\<not> (sy < sh \<and> dy < H) \<Longrightarrow> apply_bitmap_rows b W H dx src sw sh n sy dy = Inr b"
  by (subst apply_bitmap_rows.simps) auto

lemma apply_bitmap_nothing:
  assumes "min (ZERO_SUB (g_width dest) (pt_x dest_start))
               (ZERO_SUB (bm_pitch bitmap) (pt_x src_start)) = 0 \<or>
           min (ZERO_SUB (bm_rows bitmap) (pt_y src_start))
               (ZERO_SUB (g_height dest) (pt_y dest_start)) = 0"
  shows "apply_bitmap dest bitmap src_start dest_start = Inr dest"
  using assms
proof
  assume "min (ZERO_SUB (g_width dest) (pt_x dest_start))
              (ZERO_SUB (bm_pitch bitmap) (pt_x src_start)) = 0"
  then show ?thesis
    by (simp add: apply_bitmap_def apply_bitmap_rows_no_width)
next
  assume "min (ZERO_SUB (bm_rows bitmap) (pt_y src_start))
              (ZERO_SUB (g_height dest) (pt_y dest_start)) = 0"
  then have "\<not> (pt_y src_start < bm_rows bitmap \<and> pt_y dest_start < g_height dest)"
    by (auto simp: ZERO_SUB_def min_def split: if_splits)
  then show ?thesis
    by (simp add: apply_bitmap_def apply_bitmap_rows_no_rows)
qed

lemma apply_bitmap_pixels:
  assumes ok: "canvas_ok dest" "bitmap_ok bitmap"
    and w: "w = min (ZERO_SUB (g_width dest) (pt_x dest_start))
                    (ZERO_SUB (bm_pitch bitmap) (pt_x src_start))"
    and pos: "0 < w" "0 < g_height dest"
  shows "\<exists>d d'. g_buf dest = Some d \<and>
           apply_bitmap dest bitmap src_start dest_start = Inr (dest\<lparr>g_buf := Some d'\<rparr>) \<and>
           length d' = length d \<and>
           (\<forall>x<g_width dest. \<forall>y<g_height dest. d' ! (y * g_width dest + x) =
              (if pt_y dest_start \<le> y \<and> pt_y src_start + (y - pt_y dest_start) < bm_rows bitmap \<and>
                  pt_x dest_start \<le> x \<and> x < pt_x dest_start + w
               then bm_buffer bitmap !
                      ((pt_y src_start + (y - pt_y dest_start)) * bm_pitch bitmap + (x - pt_x dest_start))
               else d ! (y * g_width dest + x)))"
proof -
  have fit: "pt_x dest_start + w \<le> g_width dest" "w \<le> bm_pitch bitmap"
    using w pos(1) by (auto simp: ZERO_SUB_def min_def split: if_splits)
  then have "0 < g_width dest" using pos(1) by simp
  with pos(2) ok(1) obtain d where d: "g_buf dest = Some d" "length d = g_width dest * g_height dest"
    by (auto simp: canvas_ok_def split: option.splits)
  from apply_bitmap_rows_spec [OF d(2) ok(2)[unfolded bitmap_ok_def] fit(2) fit(1),
         of "pt_y src_start" "pt_y dest_start"]
  obtain d' where d': "apply_bitmap_rows (Some d) (g_width dest) (g_height dest) (pt_x dest_start)
        (bm_buffer bitmap) (bm_pitch bitmap) (bm_rows bitmap) w (pt_y src_start) (pt_y dest_start)
        = Inr (Some d')" "length d' = length d"
     "\<forall>x<g_width dest. \<forall>y<g_height dest. d' ! (y * g_width dest + x) =
              (if pt_y dest_start \<le> y \<and> pt_y src_start + (y - pt_y dest_start) < bm_rows bitmap \<and>
                  pt_x dest_start \<le> x \<and> x < pt_x dest_start + w
               then bm_buffer bitmap !
                      ((pt_y src_start + (y - pt_y dest_start)) * bm_pitch bitmap + (x - pt_x dest_start))
               else d ! (y * g_width dest + x))"
    by blast
  have "apply_bitmap dest bitmap src_start dest_start = Inr (dest\<lparr>g_buf := Some d'\<rparr>)"
    using d'(1) d(1) w by (simp add: apply_bitmap_def)
  with d d' show ?thesis by blast
qed

text \<open>
  C9. For a well-formed canvas and a well-formed source bitmap, and any two origins,
  \<^verbatim>\<open>apply_bitmap\<close> returns normally (no \<^verbatim>\<open>memcpy\<close> leaves its block), the canvas keeps its
  dimensions and the size of its buffer, and a pixel can change only inside the clipped
  rectangle: columns \<open>dest.x \<le> x < dest.x + w\<close> of rows \<open>dest.y \<le> y < dest.y + h\<close>,
  which lies inside the canvas. So every byte written is in the buffer and in the range
  of its own row. When the clipped width \<open>w\<close> or the clipped row count \<open>h\<close> is zero,
  the canvas is left as it was.
\<close>

theorem apply_bitmap_writes_inside_canvas:
  assumes ok: "canvas_ok dest" "bitmap_ok bitmap"
    and w: "w = min (ZERO_SUB (g_width dest) (pt_x dest_start))
                    (ZERO_SUB (bm_pitch bitmap) (pt_x src_start))"
    and h: "h = min (ZERO_SUB (bm_rows bitmap) (pt_y src_start))
                    (ZERO_SUB (g_height dest) (pt_y dest_start))"
  shows "\<exists>g'. apply_bitmap dest bitmap src_start dest_start = Inr g' \<and>
           g_width g' = g_width dest \<and> g_height g' = g_height dest \<and> canvas_ok g' \<and>
           (0 < w \<longrightarrow> pt_x dest_start + w \<le> g_width dest) \<and>
           (0 < h \<longrightarrow> pt_y dest_start + h \<le> g_height dest) \<and>
           (\<forall>x y. pixel g' x y \<noteq> pixel dest x y \<longrightarrow>
              pt_x dest_start \<le> x \<and> x < pt_x dest_start + w \<and>
              pt_y dest_start \<le> y \<and> y < pt_y dest_start + h) \<and>
           (w = 0 \<or> h = 0 \<longrightarrow> g' = dest)"
proof -
  have fit: "0 < w \<longrightarrow> pt_x dest_start + w \<le> g_width dest"
            "0 < h \<longrightarrow> pt_y dest_start + h \<le> g_height dest"
    using w h by (auto simp: ZERO_SUB_def min_def split: if_splits)
  show ?thesis
  proof (cases "w = 0 \<or> h = 0")
    case True
    then have "min (ZERO_SUB (g_width dest) (pt_x dest_start))
                   (ZERO_SUB (bm_pitch bitmap) (pt_x src_start)) = 0 \<or>
               min (ZERO_SUB (bm_rows bitmap) (pt_y src_start))
                   (ZERO_SUB (g_height dest) (pt_y dest_start)) = 0"
      using w h by simp
    then have "apply_bitmap dest bitmap src_start dest_start = Inr dest"
      by (rule apply_bitmap_nothing)
    with ok(1) fit show ?thesis by simp
  next
    case False
    then have pos: "0 < w" "0 < h" by simp_all
    then have "0 < g_height dest" using fit by simp
    from apply_bitmap_pixels [OF ok w pos(1) this]
    obtain d d' where d: "g_buf dest = Some d"
      and run: "apply_bitmap dest bitmap src_start dest_start = Inr (dest\<lparr>g_buf := Some d'\<rparr>)"
      and len: "length d' = length d"
      and px: "\<forall>x<g_width dest. \<forall>y<g_height dest. d' ! (y * g_width dest + x) =
              (if pt_y dest_start \<le> y \<and> pt_y src_start + (y - pt_y dest_start) < bm_rows bitmap \<and>
                  pt_x dest_start \<le> x \<and> x < pt_x dest_start + w
               then bm_buffer bitmap !
                      ((pt_y src_start + (y - pt_y dest_start)) * bm_pitch bitmap + (x - pt_x dest_start))
               else d ! (y * g_width dest + x))"
      by blast
    let ?g = "dest\<lparr>g_buf := Some d'\<rparr>"
    have okg: "canvas_ok ?g"
      using ok(1) d len by (simp add: canvas_ok_def)
    have frame: "pt_x dest_start \<le> x \<and> x < pt_x dest_start + w \<and>
                 pt_y dest_start \<le> y \<and> y < pt_y dest_start + h"
      if ne: "pixel ?g x y \<noteq> pixel dest x y" for x y
    proof -
      have in_canvas: "x < g_width dest \<and> y < g_height dest"
        using ne d len by (auto simp: pixel_def split: if_splits)
      then have "d' ! (y * g_width dest + x) \<noteq> d ! (y * g_width dest + x)"
        using ne d len by (auto simp: pixel_def split: if_splits)
      with px in_canvas
      have c: "pt_y dest_start \<le> y \<and> pt_y src_start + (y - pt_y dest_start) < bm_rows bitmap \<and>
               pt_x dest_start \<le> x \<and> x < pt_x dest_start + w"
        by metis
      then have "y - pt_y dest_start < h"
        using in_canvas h by (auto simp: ZERO_SUB_def min_def split: if_splits)
      with c show ?thesis by auto
    qed
    show ?thesis
      using run okg fit frame False by (intro exI [of _ ?g]) auto
  qed
qed

theorem apply_bitmap_writes_inside_canvas_witness:
  "canvas_ok canvas_3x1 \<and> bitmap_ok row_10_20_30 \<and>
   (\<exists>g'. apply_bitmap canvas_3x1 row_10_20_30 \<lparr>pt_x = 1, pt_y = 0\<rparr> \<lparr>pt_x = 0, pt_y = 0\<rparr> = Inr g' \<and>
         canvas_ok g' \<and> pixel g' 2 0 = pixel canvas_3x1 2 0)"
proof -
  have a: "canvas_ok canvas_3x1"
    by (simp add: canvas_ok_def canvas_3x1_def)
  have b: "bitmap_ok row_10_20_30"
    by (simp add: bitmap_ok_def row_10_20_30_def)
  have w: "2 = min (ZERO_SUB (g_width canvas_3x1) (pt_x \<lparr>pt_x = 0, pt_y = 0\<rparr>))
                   (ZERO_SUB (bm_pitch row_10_20_30) (pt_x \<lparr>pt_x = 1, pt_y = 0\<rparr>))"
    by (simp add: ZERO_SUB_def canvas_3x1_def row_10_20_30_def)
  have h: "1 = min (ZERO_SUB (bm_rows row_10_20_30) (pt_y \<lparr>pt_x = 1, pt_y = 0\<rparr>))
                   (ZERO_SUB (g_height canvas_3x1) (pt_y \<lparr>pt_x = 0, pt_y = 0\<rparr>))"
    by (simp add: ZERO_SUB_def canvas_3x1_def row_10_20_30_def)
  from apply_bitmap_writes_inside_canvas [OF a b w h]
  obtain g' where g':
    "apply_bitmap canvas_3x1 row_10_20_30 \<lparr>pt_x = 1, pt_y = 0\<rparr> \<lparr>pt_x = 0, pt_y = 0\<rparr> = Inr g'"
    "canvas_ok g'"
    "\<forall>x y. pixel g' x y \<noteq> pixel canvas_3x1 x y \<longrightarrow>
       pt_x \<lparr>pt_x = 0, pt_y = 0\<rparr> \<le> x \<and> x < pt_x \<lparr>pt_x = 0, pt_y = 0\<rparr> + 2 \<and>
       pt_y \<lparr>pt_x = 0, pt_y = 0\<rparr> \<le> y \<and> y < pt_y \<lparr>pt_x = 0, pt_y = 0\<rparr> + 1"
    by blast
  from g'(3) have "pixel g' 2 0 = pixel canvas_3x1 2 0"
    by fastforce
  with a b g'(1,2) show ?thesis by blast
qed

section \<open>The source column of a placed bitmap\<close>

text \<open>
  C1. The claim: the bytes copied into a canvas row, from column \<open>dest_origin.x\<close> on, are
  the bytes of the source row from column \<open>src_origin.x\<close> on. The code does not do this:
  it uses \<^verbatim>\<open>src_start.x\<close> to clip the number of columns, but copies from column 0 of the
  source row. Placing the row 10, 20, 30 with source origin (1, 0) on an empty canvas of
  3 by 1 copies two bytes, and they are 10, 20, where the claim asks for 20, 30.
  \<^verbatim>\<open>draw_complex_glyph\<close> makes such a call for a glyph whose offset puts it left of the
  canvas: with the cursor at -1 the source origin is (1, 0), and the composite of the
  row alone is 10, 20.
\<close>

theorem apply_bitmap_copies_from_column_0:
  "apply_bitmap canvas_3x1 row_10_20_30 \<lparr>pt_x = 1, pt_y = 0\<rparr> \<lparr>pt_x = 0, pt_y = 0\<rparr>
     = Inr (canvas_3x1\<lparr>g_buf := Some [10, 20, 0]\<rparr>) \<and>
   origins (- 1) 0 = Some (\<lparr>pt_x = 1, pt_y = 0\<rparr>, \<lparr>pt_x = 0, pt_y = 0\<rparr>) \<and>
   draw_complex_glyph load_row calloc_always empty_glyph [glyph_shifted_left]
     = Inr ([10, 20], dot_metrics, 2, 1)"
  by (simp add: draw_eval canvas_3x1_def row_10_20_30_def load_row_def glyph_shifted_left_def
        zero_metrics_def)

section \<open>Growing the canvas\<close>

lemma ensure_space_rows_empty:
  "gw = 0 \<or> gh \<le> r \<Longrightarrow> ensure_space_rows ob gw gh w nb r = Inr nb"
proof (induction ob gw gh w nb r rule: ensure_space_rows.induct)
  case (1 oldbuf gwidth gheight width newbuf r)
  show ?case
  proof (cases "r < gheight")
    case True
    with 1(2) have z: "gwidth = 0" by simp
    then have "ensure_space_rows oldbuf gwidth gheight width newbuf (r + 1) = Inr newbuf"
      using 1(1) [OF True, of newbuf] by simp
    with True z show ?thesis
      by (subst ensure_space_rows.simps) simp
  next
    case False
    then show ?thesis
      by (subst ensure_space_rows.simps) simp
  qed
qed

lemma umul_small: "a * b < 2 ^ 32 \<Longrightarrow> umul a b = a * b"
  by (simp add: umul_def)

lemma ensure_space_rows_spec:
  assumes "length od = gw * gh" "length d = w * h" "gw \<le> w" "gh \<le> h" "w * h < 2 ^ 32"
  shows "\<exists>d'. ensure_space_rows (Some od) gw gh w (Some d) r = Inr (Some d') \<and>
           length d' = length d \<and>
           (\<forall>x<w. \<forall>y<h. d' ! (y * w + x) =
              (if r \<le> y \<and> y < gh \<and> x < gw then od ! (y * gw + x) else d ! (y * w + x)))"
  using assms
proof (induction "Some od" gw gh w "Some d" r arbitrary: d rule: ensure_space_rows.induct)
  case (1 gw gh w r)
  show ?case
  proof (cases "r < gh")
    case False
    then show ?thesis
      by (subst ensure_space_rows.simps) auto
  next
    case True
    let ?d1 = "take (r * w) d @ take gw (drop (r * gw) od) @ drop (r * w + gw) d"
    have rw: "Suc r * w \<le> h * w"
      using True 1(5) by (intro mult_le_mono1) simp
    then have small: "r * w < 2 ^ 32" "r * gw < 2 ^ 32"
    proof -
      have "r * w \<le> Suc r * w" by simp
      then have "r * w \<le> h * w" using rw by (rule order_trans)
      moreover have "h * w < 2 ^ 32" using 1(6) by (simp add: mult.commute)
      ultimately show "r * w < 2 ^ 32" by (rule le_less_trans)
      moreover have "r * gw \<le> r * w" using 1(4) by simp
      ultimately show "r * gw < 2 ^ 32" by (rule le_less_trans [rotated])
    qed
    have dst: "r * w + gw \<le> length d"
    proof -
      have "r * w + gw \<le> Suc r * w" using 1(4) by simp
      with rw show ?thesis using 1(3) by (simp add: mult.commute)
    qed
    have src: "r * gw + gw \<le> length od"
    proof -
      have "Suc r * gw \<le> gh * gw" using True by (intro mult_le_mono1) simp
      then show ?thesis using 1(2) by (simp add: mult.commute)
    qed
    have m: "memcpy (Some d) (umul r w) (Some od) (umul r gw) gw = Inr (Some ?d1)"
      using memcpy_Some [OF dst src] small by (simp add: umul_small)
    have len1: "length ?d1 = length d" using dst src by (rule length_copied)
    from 1(1) [OF True m] len1 1(2,3,4,5,6)
    obtain d' where d': "ensure_space_rows (Some od) gw gh w (Some ?d1) (r + 1) = Inr (Some d')"
      "length d' = length ?d1"
      "\<forall>x<w. \<forall>y<h. d' ! (y * w + x) =
          (if r + 1 \<le> y \<and> y < gh \<and> x < gw then od ! (y * gw + x) else ?d1 ! (y * w + x))"
      by auto
    have run: "ensure_space_rows (Some od) gw gh w (Some d) r = Inr (Some d')"
      using True m d'(1) by (subst ensure_space_rows.simps) simp
    have px: "d' ! (y * w + x) =
          (if r \<le> y \<and> y < gh \<and> x < gw then od ! (y * gw + x) else d ! (y * w + x))"
      if "x < w" "y < h" for x y
    proof -
      have q: "y * w + x < length d" using that 1(3) by (simp add: pixel_index_less)
      have "?d1 ! (y * w + x) = (if r * w \<le> y * w + x \<and> y * w + x < r * w + gw
            then od ! (r * gw + (y * w + x - r * w)) else d ! (y * w + x))"
        using dst src q by (rule nth_copied)
      moreover have "(r * w \<le> y * w + x \<and> y * w + x < r * w + gw) \<longleftrightarrow> (y = r \<and> x < gw)"
        using row_offset_in_range [OF that(1), of 0 gw r y] 1(4) by simp
      ultimately have one: "?d1 ! (y * w + x) =
          (if y = r \<and> x < gw then od ! (r * gw + x) else d ! (y * w + x))"
        by auto
      show ?thesis using d'(3) that one True by auto
    qed
    show ?thesis using run d'(2) len1 px by auto
  qed
qed

text \<open>
  C5, as the claim states it: the grow of the canvas that has no pixel yet to 65536
  columns and 65536 rows. The area is \<open>2 ^ 32\<close>, and the product \<^verbatim>\<open>width * height\<close> of the two
  \<^verbatim>\<open>unsigned int\<close> values is 0: \<^verbatim>\<open>calloc\<close> is asked for no byte and, when it returns a block,
  the grow succeeds with a canvas of 65536 by 65536 whose buffer is empty, so that the
  canvas has no pixel at column 0 of row 0, where the claim has a zero. \<^verbatim>\<open>draw_complex_glyph\<close>
  makes this request for one glyph of no rows at the cursor (65535, 65536), and returns
  no byte with the dimensions 65536 by 65536.
\<close>

theorem ensure_space_area_wraps_around:
  "ensure_space True canvas_0x0 65536 65536
     = Inr (True, \<lparr>g_buf = Some [], g_width = 65536, g_height = 65536,
                   g_metrics = zero_metrics\<rparr>) \<and>
   pixel \<lparr>g_buf = Some [], g_width = 65536, g_height = 65536, g_metrics = zero_metrics\<rparr> 0 0
     = None \<and>
   draw_complex_glyph load_rowless calloc_always empty_glyph [glyph_at_65535_65536]
     = Inr ([], dot_metrics, 65536, 65536)"
  by (simp add: draw_eval canvas_0x0_def pixel_def load_rowless_def glyph_at_65535_65536_def
        zero_metrics_def)

text \<open>
  C5, amended. A request that the current dimensions cover changes nothing. A grow is a
  request in which no dimension is below the current one and one at least is above it
  (every request of \<^verbatim>\<open>draw_complex_glyph\<close> is of this kind or covered). When the area
  \<open>width * height\<close> of a grow is below \<open>2 ^ 32\<close>, so that \<^verbatim>\<open>unsigned int\<close> holds it, and \<^verbatim>\<open>calloc\<close>
  succeeds, the grow succeeds, the canvas has the requested dimensions, every pixel of
  the old canvas has its value at the same column and row, and every other pixel is
  zero.
\<close>

theorem ensure_space_keeps_pixels:
  "(g_width g \<ge> width \<and> g_height g \<ge> height \<longrightarrow>
      ensure_space calloc_ok g width height = Inr (True, g)) \<and>
   (canvas_ok g \<and> g_width g \<le> width \<and> g_height g \<le> height \<and>
    (g_width g < width \<or> g_height g < height) \<and> width * height < 2 ^ 32 \<longrightarrow>
      (\<exists>g'. ensure_space True g width height = Inr (True, g') \<and>
         g_width g' = width \<and> g_height g' = height \<and> canvas_ok g' \<and>
         g_metrics g' = g_metrics g \<and>
         (\<forall>x y. x < g_width g \<and> y < g_height g \<longrightarrow>
            (\<exists>v. pixel g x y = Some v \<and> pixel g' x y = Some v)) \<and>
         (\<forall>x y. x < width \<and> y < height \<and> \<not> (x < g_width g \<and> y < g_height g) \<longrightarrow>
            pixel g' x y = Some 0)))"
proof (intro conjI impI)
  assume "g_width g \<ge> width \<and> g_height g \<ge> height"
  then show "ensure_space calloc_ok g width height = Inr (True, g)"
    by (simp add: ensure_space_def)
next
  assume a: "canvas_ok g \<and> g_width g \<le> width \<and> g_height g \<le> height \<and>
    (g_width g < width \<or> g_height g < height) \<and> width * height < 2 ^ 32"
  let ?zeros = "replicate (umul width height) (0 :: byte)"
  have lz: "length ?zeros = width * height"
    using a by (simp add: umul_small)
  have notcov: "\<not> (g_width g \<ge> width \<and> g_height g \<ge> height)"
    using a by auto
  have "\<exists>d'. ensure_space_rows (g_buf g) (g_width g) (g_height g) width (Some ?zeros) 0 = Inr (Some d') \<and>
          length d' = width * height \<and>
          (\<forall>x<width. \<forall>y<height. d' ! (y * width + x) =
             (if y < g_height g \<and> x < g_width g then the (g_buf g) ! (y * g_width g + x) else 0))"
  proof (cases "g_width g = 0 \<or> g_height g = 0")
    case True
    then have "ensure_space_rows (g_buf g) (g_width g) (g_height g) width (Some ?zeros) 0
                 = Inr (Some ?zeros)"
      by (intro ensure_space_rows_empty) auto
    moreover have "?zeros ! (y * width + x) = 0" if "x < width" "y < height" for x y
      using that lz pixel_index_less [OF that] by simp
    ultimately show ?thesis using lz True by auto
  next
    case False
    with a obtain od where od: "g_buf g = Some od" "length od = g_width g * g_height g"
      by (auto simp: canvas_ok_def split: option.splits)
    from ensure_space_rows_spec [OF od(2) lz, of 0] a
    obtain d' where d': "ensure_space_rows (Some od) (g_width g) (g_height g) width (Some ?zeros) 0
          = Inr (Some d')" "length d' = length ?zeros"
       "\<forall>x<width. \<forall>y<height. d' ! (y * width + x) =
          (if 0 \<le> y \<and> y < g_height g \<and> x < g_width g then od ! (y * g_width g + x)
           else ?zeros ! (y * width + x))"
      by blast
    have "?zeros ! (y * width + x) = 0" if "x < width" "y < height" for x y
      using that lz pixel_index_less [OF that] by simp
    with d' od lz show ?thesis by auto
  qed
  then obtain d' where d': "ensure_space_rows (g_buf g) (g_width g) (g_height g) width (Some ?zeros) 0
        = Inr (Some d')" "length d' = width * height"
     "\<forall>x<width. \<forall>y<height. d' ! (y * width + x) =
             (if y < g_height g \<and> x < g_width g then the (g_buf g) ! (y * g_width g + x) else 0)"
    by blast
  let ?g = "g\<lparr>g_buf := Some d', g_width := width, g_height := height\<rparr>"
  have run: "ensure_space True g width height = Inr (True, ?g)"
    unfolding ensure_space_def using notcov d'(1) by auto
  have old: "\<exists>v. pixel g x y = Some v \<and> pixel ?g x y = Some v"
    if "x < g_width g \<and> y < g_height g" for x y
  proof -
    from that a have in_new: "x < width" "y < height" by auto
    from that a obtain od where od: "g_buf g = Some od" "length od = g_width g * g_height g"
      by (cases "g_buf g") (auto simp: canvas_ok_def)
    have "y * g_width g + x < length od"
      using that od(2) by (simp add: pixel_index_less)
    moreover have "y * width + x < length d'"
      using in_new d'(2) by (simp add: pixel_index_less)
    ultimately show ?thesis
      using that in_new d'(3) od by (simp add: pixel_def)
  qed
  have new: "pixel ?g x y = Some 0"
    if "x < width \<and> y < height \<and> \<not> (x < g_width g \<and> y < g_height g)" for x y
  proof -
    have "y * width + x < length d'"
      using that d'(2) by (simp add: pixel_index_less)
    then show ?thesis using that d'(3) by (auto simp: pixel_def)
  qed
  have "canvas_ok ?g" using d'(2) by (simp add: canvas_ok_def)
  with run old new
  show "\<exists>g'. ensure_space True g width height = Inr (True, g') \<and>
         g_width g' = width \<and> g_height g' = height \<and> canvas_ok g' \<and>
         g_metrics g' = g_metrics g \<and>
         (\<forall>x y. x < g_width g \<and> y < g_height g \<longrightarrow>
            (\<exists>v. pixel g x y = Some v \<and> pixel g' x y = Some v)) \<and>
         (\<forall>x y. x < width \<and> y < height \<and> \<not> (x < g_width g \<and> y < g_height g) \<longrightarrow>
            pixel g' x y = Some 0)"
    by (intro exI [of _ ?g]) simp
qed

theorem ensure_space_keeps_pixels_witness:
  "ensure_space False canvas_2x1 2 1 = Inr (True, canvas_2x1) \<and>
   canvas_ok canvas_2x1 \<and> g_width canvas_2x1 < 3 \<and> g_height canvas_2x1 < 2 \<and>
   (\<exists>g'. ensure_space True canvas_2x1 3 2 = Inr (True, g') \<and> g_width g' = 3 \<and> g_height g' = 2 \<and>
         pixel g' 1 0 = Some 9 \<and> pixel g' 2 0 = Some 0 \<and> pixel g' 1 1 = Some 0)"
proof -
  have ok: "canvas_ok canvas_2x1" and dims: "g_width canvas_2x1 = 2" "g_height canvas_2x1 = 1"
    by (simp_all add: canvas_ok_def canvas_2x1_def)
  have old: "pixel canvas_2x1 1 0 = Some 9"
    by (simp add: pixel_def canvas_2x1_def)
  have covered: "ensure_space False canvas_2x1 2 1 = Inr (True, canvas_2x1)"
    using ensure_space_keeps_pixels [of 2 canvas_2x1 1 False] dims by simp
  have "canvas_ok canvas_2x1 \<and> g_width canvas_2x1 \<le> 3 \<and> g_height canvas_2x1 \<le> 2 \<and>
        (g_width canvas_2x1 < 3 \<or> g_height canvas_2x1 < 2) \<and> (3::nat) * 2 < 2 ^ 32"
    using ok dims by simp
  with ensure_space_keeps_pixels [of 3 canvas_2x1 2 True]
  obtain g' where g': "ensure_space True canvas_2x1 3 2 = Inr (True, g')"
    "g_width g' = 3" "g_height g' = 2"
    "\<forall>x y. x < g_width canvas_2x1 \<and> y < g_height canvas_2x1 \<longrightarrow>
        (\<exists>v. pixel canvas_2x1 x y = Some v \<and> pixel g' x y = Some v)"
    "\<forall>x y. x < 3 \<and> y < 2 \<and> \<not> (x < g_width canvas_2x1 \<and> y < g_height canvas_2x1) \<longrightarrow>
        pixel g' x y = Some 0"
    by blast
  have "(1::nat) < g_width canvas_2x1 \<and> (0::nat) < g_height canvas_2x1"
    using dims by simp
  with g'(4) obtain v where "pixel canvas_2x1 1 0 = Some v" "pixel g' 1 0 = Some v"
    by blast
  with old have "pixel g' 1 0 = Some 9"
    by simp
  moreover have "pixel g' 2 0 = Some 0" "pixel g' 1 1 = Some 0"
    using g'(5) dims by simp_all
  ultimately show ?thesis
    using covered ok dims g'(1,2,3) by auto
qed

section \<open>Glyphs of id 0\<close>

lemma draw_loop_all_skipped:
  "\<forall>gl \<in> set sd. codepoint gl = 0 \<Longrightarrow> draw_loop load calloc_ok i st sd = Inr st"
  by (induction sd arbitrary: i) (simp_all add: glyph_step_def)

text \<open>
  C8. When every glyph of the run has the id 0, \<^verbatim>\<open>draw_complex_glyph\<close> fails with
  ``No glyphs found'' (the spec's \<open>EmptyShapeResult\<close>) and returns no bitmap, whatever the
  rasterizer and the allocator do.
\<close>

theorem no_glyph_found_when_all_ids_zero:
  assumes "\<forall>gl \<in> set sd. codepoint gl = 0"
  shows "draw_complex_glyph load calloc_ok slot sd = Inl NoGlyphsFound"
  using assms by (simp add: draw_complex_glyph_def draw_loop_all_skipped initial_state_def)

theorem no_glyph_found_when_all_ids_zero_witness:
  "codepoint stray_glyph = 0 \<and> codepoint (shaped 0 64) = 0 \<and>
   draw_complex_glyph load_dot calloc_always empty_glyph [stray_glyph, shaped 0 64]
     = Inl NoGlyphsFound"
proof -
  have h: "\<forall>gl \<in> set [stray_glyph, shaped 0 64]. codepoint gl = 0"
    by (simp add: stray_glyph_def shaped_def)
  show ?thesis
    using no_glyph_found_when_all_ids_zero [OF h, of load_dot calloc_always empty_glyph]
    by (simp add: stray_glyph_def shaped_def)
qed

text \<open>
  C10. A glyph of id 0 leaves the whole state of the loop as it was: the cursor, the
  running width and height, the canvas (its pixels, its dimensions, its metrics) and the
  glyph slot. Its offsets and its advance are not read, so the rest of the run is drawn
  from the same state as if the glyph were not there (it still counts in the index).
\<close>

theorem skipped_glyph_leaves_state:
  assumes "codepoint gl = 0"
  shows "glyph_step load calloc_ok i st gl = Inr st \<and>
         draw_loop load calloc_ok i st (gl # gls) = draw_loop load calloc_ok (i + 1) st gls"
  using assms by (simp add: glyph_step_def)

theorem skipped_glyph_leaves_state_witness:
  "codepoint stray_glyph = 0 \<and>
   glyph_step load_dot calloc_always 1 (initial_state dot_glyph) stray_glyph
     = Inr (initial_state dot_glyph) \<and>
   draw_loop load_dot calloc_always 1 (initial_state dot_glyph) [stray_glyph, shaped 1 0]
     = draw_loop load_dot calloc_always (1 + 1) (initial_state dot_glyph) [shaped 1 0]"
proof -
  have h: "codepoint stray_glyph = 0"
    by (simp add: stray_glyph_def)
  show ?thesis
    using skipped_glyph_leaves_state
            [OF h, of load_dot calloc_always 1 "initial_state dot_glyph" "[shaped 1 0]"] h
    by blast
qed

section \<open>The metrics of the composite\<close>

text \<open>
  C2. The claim: the metrics returned are those of the first glyph that is rasterized,
  also when glyphs of id 0 come before it. The code takes the metrics in the iteration of
  index 0 only (\<^verbatim>\<open>if (i == 0)\<close>), after the test that skips a glyph of id 0: when the
  glyph at index 0 is skipped, no later glyph sets them, and the zeroed metrics of
  \<^verbatim>\<open>GlyphBuffer g = {0}\<close> are returned. Here the run is a glyph of id 0 and a glyph of id 5,
  which the rasterizer renders with the metrics \<open>dot_metrics\<close>.
\<close>

theorem metrics_lost_after_skipped_glyph:
  "draw_complex_glyph load_dot calloc_always empty_glyph [shaped 0 0, shaped 5 0]
     = Inr ([255], zero_metrics, 1, 1) \<and>
   slot_metrics (load_dot empty_glyph 5) = dot_metrics \<and> dot_metrics \<noteq> zero_metrics"
  by (simp add: draw_eval load_dot_def dot_glyph_def dot_bitmap_def dot_metrics_def shaped_def
        zero_metrics_def)

section \<open>Scenario A\<close>

text \<open>
  C6, as the claim states it: two glyphs of one pixel of intensity 255, zero offsets,
  advances \<open>0 * 64\<close> and \<open>8 * 64\<close> in this order. A glyph's advance moves the cursor after
  the glyph is placed, so both glyphs land on column 0 and the canvas is one column
  wide, not nine.
\<close>

theorem scenario_A_as_stated_is_one_column:
  "draw_complex_glyph load_dot calloc_always empty_glyph [shaped 1 (0 * 64), shaped 2 (8 * 64)]
     = Inr ([255], dot_metrics, 1, 1)"
  by (simp add: draw_eval load_dot_def dot_glyph_def dot_bitmap_def shaped_def zero_metrics_def)

text \<open>
  C6, amended: when the first glyph has the advance \<open>8 * 64\<close> (whatever the advance of the
  second), the canvas is 9 columns wide and 1 row high, columns 0 and 8 are 255 and the
  columns between them are 0. This holds for every rasterizer that renders the two glyphs
  as one pixel of intensity 255, as long as the two allocations succeed.
\<close>

theorem scenario_A_first_advance_8:
  assumes "a \<noteq> 0" and "b \<noteq> 0"
    and "\<And>s. slot_bitmap (load s a) = dot_bitmap"
    and "\<And>s. slot_bitmap (load s b) = dot_bitmap"
    and "calloc_ok 0" and "calloc_ok 1"
  shows "draw_complex_glyph load calloc_ok slot [shaped a (8 * 64), shaped b adv]
           = Inr ([255, 0, 0, 0, 0, 0, 0, 0, 255], slot_metrics (load slot a), 9, 1)"
  using assms
  apply (simp add: draw_eval dot_bitmap_def shaped_def zero_metrics_def)
  apply (simp add: eval_nat_numeral)
  done

theorem scenario_A_first_advance_8_witness:
  "draw_complex_glyph load_dot calloc_always empty_glyph [shaped 1 (8 * 64), shaped 2 (0 * 64)]
     = Inr ([255, 0, 0, 0, 0, 0, 0, 0, 255], dot_metrics, 9, 1)"
  using scenario_A_first_advance_8 [of 1 2 load_dot calloc_always empty_glyph "0 * 64"]
  by (simp add: load_dot_def dot_glyph_def calloc_always_def)

section \<open>Rounding\<close>

lemma pow2_pos: "0 < pow2 e"
  by (simp add: pow2_def)



lemma pow2_nonpos: "e \<le> 0 \<Longrightarrow> pow2 e = 1 / 2 ^ nat (- e)"
  by (cases "e = 0") (simp_all add: pow2_def)

lemma pow2_of_nat: "pow2 (int k) = 2 ^ k"
  by (simp add: pow2_def)

lemma pow2_Suc: "pow2 (e + 1) = 2 * pow2 e"
proof (cases "0 \<le> e")
  case True
  then have "nat (e + 1) = Suc (nat e)" by simp
  with True show ?thesis by (simp add: pow2_def)
next
  case False
  then have "nat (- e) = Suc (nat (- (e + 1)))" by simp
  with False show ?thesis
    by (cases "e + 1 = 0") (simp_all add: pow2_def)
qed

lemma pow2_add_nat: "pow2 (e + int n) = 2 ^ n * pow2 e"
proof (induction n)
  case 0
  then show ?case by simp
next
  case (Suc n)
  have "e + int (Suc n) = (e + int n) + 1"
    by simp
  then have "pow2 (e + int (Suc n)) = pow2 ((e + int n) + 1)"
    by (rule arg_cong)
  also have "\<dots> = 2 * pow2 (e + int n)"
    by (rule pow2_Suc)
  finally show ?case
    using Suc.IH by simp
qed

text \<open>\<open>ilog2 a\<close> is the exponent of \<open>a\<close>.\<close>

lemma ilog2_bounds:
  assumes "0 < a"
  shows "pow2 (ilog2 a) \<le> a \<and> a < pow2 (ilog2 a + 1)"
proof (cases "1 \<le> a")
  case True
  define n where "n = nat \<lfloor>a\<rfloor>"
  define k where "k = floorlog 2 n"
  have n: "0 < n" and na: "of_nat n \<le> a" and an: "a < of_nat n + 1"
    using True by (simp_all add: n_def) linarith+
  from floorlog_bounds [OF n, of 2] have b: "2 ^ (k - 1) \<le> n" "n < 2 ^ k"
    by (simp_all add: k_def)
  have k: "0 < k"
    using b(2) n by (cases k) simp_all
  have il: "ilog2 a = int (k - 1)"
    using True k by (simp add: ilog2_def n_def k_def)
  have il1: "ilog2 a + 1 = int k"
    using il k by simp
  have "(2::rat) ^ (k - 1) \<le> of_nat n"
    using b(1) by (metis of_nat_le_iff of_nat_numeral of_nat_power)
  with na have lo: "pow2 (ilog2 a) \<le> a"
    unfolding il pow2_of_nat by linarith
  have "n + 1 \<le> 2 ^ k"
    using b(2) by simp
  then have "(of_nat (n + 1) :: rat) \<le> 2 ^ k"
    by (metis of_nat_le_iff of_nat_numeral of_nat_power)
  with an have "a < pow2 (ilog2 a + 1)"
    unfolding il1 pow2_of_nat by simp
  with lo show ?thesis ..
next
  case False
  define c where "c = \<lceil>1 / a\<rceil>"
  define m where "m = nat c - 1"
  define k where "k = floorlog 2 m"
  have inv: "1 < 1 / a"
    using False assms by simp
  then have c2: "2 \<le> c"
    unfolding c_def by linarith
  then have m: "0 < m" and cm: "c = int m + 1"
    by (simp_all add: m_def)
  have up: "1 / a \<le> of_int c" and low: "of_int c - 1 < 1 / a"
    unfolding c_def by linarith+
  from floorlog_bounds [OF m, of 2] have b: "2 ^ (k - 1) \<le> m" "m < 2 ^ k"
    by (simp_all add: k_def)
  have k: "0 < k"
    using b(2) m by (cases k) simp_all
  have il: "ilog2 a = - int k"
    using False by (simp add: ilog2_def c_def m_def k_def)
  have p0: "pow2 (ilog2 a) = 1 / 2 ^ k"
    unfolding il by (simp add: pow2_nonpos)
  have "ilog2 a + 1 \<le> 0" "nat (- (ilog2 a + 1)) = k - 1"
    using il k by simp_all
  then have p1: "pow2 (ilog2 a + 1) = 1 / 2 ^ (k - 1)"
    by (simp add: pow2_nonpos)
  have "m + 1 \<le> 2 ^ k"
    using b(2) by simp
  then have "(of_nat (m + 1) :: rat) \<le> 2 ^ k"
    by (metis of_nat_le_iff of_nat_numeral of_nat_power)
  with up cm have "1 / a \<le> 2 ^ k"
    by simp
  then have "1 \<le> 2 ^ k * a"
    using assms by (simp add: pos_divide_le_eq)
  then have lo: "pow2 (ilog2 a) \<le> a"
    unfolding p0 by (simp add: pos_divide_le_eq mult.commute)
  have "(2::rat) ^ (k - 1) \<le> of_nat m"
    using b(1) by (metis of_nat_le_iff of_nat_numeral of_nat_power)
  moreover have "of_nat m < 1 / a"
    using low cm by simp
  ultimately have "2 ^ (k - 1) < 1 / a"
    by linarith
  then have "2 ^ (k - 1) * a < 1"
    using assms by (simp add: pos_less_divide_eq)
  then have "a < pow2 (ilog2 a + 1)"
    unfolding p1 by (simp add: pos_less_divide_eq mult.commute)
  with lo show ?thesis ..
qed

text \<open>\<open>round_int m\<close> is an integer nearest to \<open>m\<close>.\<close>

lemma round_int_near: "\<bar>of_int (round_int m) - m\<bar> \<le> 1 / 2"
proof -
  have "of_int \<lfloor>m\<rfloor> \<le> m" "m < of_int \<lfloor>m\<rfloor> + 1"
    by linarith+
  then show ?thesis
    by (auto simp: round_int_def ties_to_even_def)
qed

text \<open>
  \<open>round_sig p v\<close> is a value of \<open>p\<close> significant bits nearest to \<open>v\<close>: a significand \<open>q\<close>
  between \<open>2 ^ (p - 1)\<close> and \<open>2 ^ p\<close> at the exponent \<open>e\<close> of the last of the first \<open>p\<close> bits of
  \<open>v\<close>, no further from \<open>v\<close> than half a unit of that bit.
\<close>

lemma round_sig_nearest:
  assumes "v \<noteq> 0" and "0 < p"
  shows "\<exists>q. round_sig p v = sgn v * (of_int q * pow2 (ilog2 \<bar>v\<bar> - int p + 1)) \<and>
             2 ^ (p - 1) \<le> q \<and> q \<le> 2 ^ p \<and>
             \<bar>round_sig p v - v\<bar> \<le> pow2 (ilog2 \<bar>v\<bar> - int p + 1) / 2"
proof -
  let ?e = "ilog2 \<bar>v\<bar> - int p + 1"
  define s where "s = \<bar>v\<bar> / pow2 ?e"
  define q where "q = round_int s"
  have pos: "0 < \<bar>v\<bar>" using assms(1) by simp
  have rs: "round_sig p v = sgn v * (of_int q * pow2 ?e)"
    using assms(1) by (simp add: round_sig_def round_at_def q_def s_def)
  have near: "\<bar>of_int q - s\<bar> \<le> 1 / 2"
    unfolding q_def by (rule round_int_near)
  have vs: "\<bar>v\<bar> = s * pow2 ?e"
    using pow2_pos [of ?e] by (simp add: s_def)
  have "round_sig p v - v = sgn v * ((of_int q - s) * pow2 ?e)"
    unfolding rs by (subst (2) mult_sgn_abs [symmetric], subst vs) (simp add: algebra_simps)
  then have "\<bar>round_sig p v - v\<bar> = \<bar>of_int q - s\<bar> * pow2 ?e"
    using assms(1) pow2_pos [of ?e] by (simp add: abs_mult abs_sgn_eq)
  also have "\<dots> \<le> 1 / 2 * pow2 ?e"
    using near pow2_pos [of ?e] by (intro mult_right_mono) simp_all
  finally have dist: "\<bar>round_sig p v - v\<bar> \<le> pow2 ?e / 2"
    by simp
  from ilog2_bounds [OF pos]
  have lo: "pow2 (ilog2 \<bar>v\<bar>) \<le> \<bar>v\<bar>" and hi: "\<bar>v\<bar> < pow2 (ilog2 \<bar>v\<bar> + 1)"
    by simp_all
  have e1: "ilog2 \<bar>v\<bar> = ?e + int (p - 1)" and e2: "ilog2 \<bar>v\<bar> + 1 = ?e + int p"
    using assms(2) by simp_all
  have "pow2 (ilog2 \<bar>v\<bar>) = pow2 (?e + int (p - 1))"
    using e1 by (rule arg_cong)
  moreover have "pow2 (ilog2 \<bar>v\<bar> + 1) = pow2 (?e + int p)"
    using e2 by (rule arg_cong)
  ultimately have "pow2 (ilog2 \<bar>v\<bar>) = 2 ^ (p - 1) * pow2 ?e"
    "pow2 (ilog2 \<bar>v\<bar> + 1) = 2 ^ p * pow2 ?e"
    by (simp_all only: pow2_add_nat)
  with lo hi have "2 ^ (p - 1) * pow2 ?e \<le> s * pow2 ?e" "s * pow2 ?e < 2 ^ p * pow2 ?e"
    unfolding vs [symmetric] by simp_all
  then have s: "2 ^ (p - 1) \<le> s" "s < 2 ^ p"
    using pow2_pos [of ?e] by simp_all
  from near have "s - 1 / 2 \<le> of_int q" "of_int q \<le> s + 1 / 2"
    by linarith+
  with s have "2 ^ (p - 1) - 1 < (of_int q :: rat)" "(of_int q :: rat) < 2 ^ p + 1"
    by linarith+
  then have "of_int (2 ^ (p - 1) - 1) < (of_int q :: rat)" "(of_int q :: rat) < of_int (2 ^ p + 1)"
    by simp_all
  then have "2 ^ (p - 1) - 1 < q" "q < 2 ^ p + 1"
    by (simp_all only: of_int_less_iff)
  then have "2 ^ (p - 1) \<le> q" "q \<le> 2 ^ p"
    by simp_all
  with rs dist show ?thesis
    by blast
qed

text \<open>Halfway between two integers, \<open>round_int\<close> takes the even one.\<close>

lemma round_int_tie: "round_int (of_int q + 1 / 2) = (if odd q then q + 1 else q)"
proof -
  have "\<lfloor>(of_int q :: rat) + 1 / 2\<rfloor> = q"
    by linarith
  then show ?thesis
    by (simp add: round_int_def ties_to_even_def)
qed












section \<open>The dimensions of the composite\<close>





















section \<open>The loops of the trim\<close>

lemma scan_column_spec:
  assumes len: "length src = rows * width" and x: "x < width" and r: "r \<le> rows"
  shows "scan_column src x rows width (r * width)
           = Inr (\<not> list_all (\<lambda>y. src ! (y * width + x) \<le> 200) [r..<rows])"
  using r
proof (induction "rows - r" arbitrary: r)
  case 0
  then have "r = rows" by simp
  then show ?case
    by (subst scan_column.simps) simp
next
  case (Suc n)
  then have lt: "r < rows" by simp
  have in_loop: "r * width < rows * width"
    using lt x by simp
  have idx: "x + r * width < length src"
    using pixel_index_less [OF x lt] len by (simp add: add.commute mult.commute)
  have rest: "scan_column src x rows width (Suc r * width)
                = Inr (\<not> list_all (\<lambda>y. src ! (y * width + x) \<le> 200) [Suc r..<rows])"
    using Suc(1) [of "Suc r"] Suc(2) lt by simp
  have split: "[r..<rows] = r # [Suc r..<rows]"
    using lt by (simp add: upt_conv_Cons)
  show ?case
    using in_loop idx rest
    by (subst scan_column.simps) (simp add: split add.commute not_le)
qed

lemma scan_column_blank:
  assumes "length src = rows * width" and "x < width"
  shows "scan_column src x rows width 0 = Inr (\<not> blank_column src rows width x)"
  using scan_column_spec [OF assms, of 0] by (simp add: blank_column_def)

lemma scan_columns_spec:
  assumes len: "length src = rows * width"
    and x: "- 1 \<le> x" "x < int width" and cap: "rtrim \<le> extra"
  shows "scan_columns src rows width extra x c rtrim
           = Inr (if c then rtrim
                  else min extra (rtrim + length (takeWhile (blank_column src rows width)
                                                    (rev [0..<nat (x + 1)]))))"
  using len x cap
proof (induction src rows width extra x c rtrim rule: scan_columns.induct)
  case (1 src rows width extra x c rtrim)
  show ?case
  proof (cases "\<not> c \<and> x > - 1 \<and> rtrim < extra")
    case False
    then consider "c" | "\<not> c" "x = - 1" | "\<not> c" "rtrim = extra"
      using "1.prems" by force
    then show ?thesis
    proof cases
      case 1
      then show ?thesis by (subst scan_columns.simps) simp
    next
      case 2
      then show ?thesis using "1.prems" by (subst scan_columns.simps) simp
    next
      case 3
      then show ?thesis by (subst scan_columns.simps) simp
    qed
  next
    case True
    then have xs: "nat x < width" "0 \<le> x"
      using "1.prems" by auto
    have col: "scan_column src (nat x) rows width 0
                 = Inr (\<not> blank_column src rows width (nat x))"
      using scan_column_blank [OF "1.prems"(1) xs(1)] .
    have cols: "rev [0..<nat (x + 1)] = nat x # rev [0..<nat (x - 1 + 1)]"
    proof -
      have "nat (x + 1) = Suc (nat x)" using xs(2) by simp
      then show ?thesis by simp
    qed
    have ih: "scan_columns src rows width extra (x - 1) (\<not> blank_column src rows width (nat x))
                (if \<not> \<not> blank_column src rows width (nat x) then rtrim + 1 else rtrim)
              = Inr (if \<not> blank_column src rows width (nat x)
                     then (if \<not> \<not> blank_column src rows width (nat x) then rtrim + 1 else rtrim)
                     else min extra
                            ((if \<not> \<not> blank_column src rows width (nat x) then rtrim + 1 else rtrim) +
                             length (takeWhile (blank_column src rows width)
                                       (rev [0..<nat (x - 1 + 1)]))))"
      using "1.IH" [OF True col] "1.prems" True by auto
    show ?thesis
    proof (cases "blank_column src rows width (nat x)")
      case blank: True
      then show ?thesis
        using True col ih cols by (subst scan_columns.simps) simp
    next
      case ink: False
      then show ?thesis
        using True col ih cols by (subst scan_columns.simps) simp
    qed
  qed
qed

lemma trim_rows_spec:
  assumes "length d = rows * cw" "length src = rows * width" "ltrim + cw \<le> width"
  shows "\<exists>d'. trim_rows (Some d) src ltrim width cw rows y = Inr (Some d') \<and>
           length d' = length d \<and>
           (\<forall>j<cw. \<forall>r<rows. d' ! (r * cw + j) =
              (if y \<le> r then src ! (ltrim + r * width + j) else d ! (r * cw + j)))"
  using assms
proof (induction "Some d" src ltrim width cw rows y arbitrary: d rule: trim_rows.induct)
  case (1 src ltrim width cw rows y)
  show ?case
  proof (cases "y < rows")
    case False
    then show ?thesis
      by (subst trim_rows.simps) auto
  next
    case True
    let ?d1 = "take (y * cw) d @ take cw (drop (ltrim + y * width) src) @ drop (y * cw + cw) d"
    have dst: "y * cw + cw \<le> length d"
    proof -
      have "Suc y * cw \<le> rows * cw" using True by (intro mult_le_mono1) simp
      then show ?thesis using 1(2) by simp
    qed
    have src: "ltrim + y * width + cw \<le> length src"
    proof -
      have "ltrim + y * width + cw \<le> Suc y * width" using 1(4) by simp
      also have "\<dots> \<le> rows * width" using True by (intro mult_le_mono1) simp
      finally show ?thesis using 1(3) by simp
    qed
    have m: "memcpy (Some d) (y * cw) (Some src) (ltrim + y * width) cw = Inr (Some ?d1)"
      using dst src by (rule memcpy_Some)
    have len1: "length ?d1 = length d" using dst src by (rule length_copied)
    from 1(1) [OF True m] len1 1(2,3,4)
    obtain d' where d': "trim_rows (Some ?d1) src ltrim width cw rows (y + 1) = Inr (Some d')"
      "length d' = length ?d1"
      "\<forall>j<cw. \<forall>r<rows. d' ! (r * cw + j) =
          (if y + 1 \<le> r then src ! (ltrim + r * width + j) else ?d1 ! (r * cw + j))"
      by auto
    have run: "trim_rows (Some d) src ltrim width cw rows y = Inr (Some d')"
      using True m d'(1) by (subst trim_rows.simps) simp
    have px: "d' ! (r * cw + j) = (if y \<le> r then src ! (ltrim + r * width + j) else d ! (r * cw + j))"
      if "j < cw" "r < rows" for j r
    proof -
      have q: "r * cw + j < length d"
        using pixel_index_less [OF that] 1(2) by (simp add: mult.commute)
      have "?d1 ! (r * cw + j) = (if y * cw \<le> r * cw + j \<and> r * cw + j < y * cw + cw
            then src ! (ltrim + y * width + (r * cw + j - y * cw)) else d ! (r * cw + j))"
        using dst src q by (rule nth_copied)
      moreover have "(y * cw \<le> r * cw + j \<and> r * cw + j < y * cw + cw) \<longleftrightarrow> r = y"
        using row_offset_in_range [OF that(1), of 0 cw y r] that(1) by simp
      ultimately have one: "?d1 ! (r * cw + j) =
          (if r = y then src ! (ltrim + y * width + j) else d ! (r * cw + j))"
        by auto
      consider "r < y" | "r = y" | "y < r" by linarith
      then show ?thesis using d'(3) that one by cases auto
    qed
    show ?thesis using run d'(2) len1 px by auto
  qed
qed

lemma ulong_sub_small:
  assumes "b \<le> a" and "a < 2 ^ 64"
  shows "ulong_sub a b = a - b"
proof -
  have "a + 2 ^ 64 - b = (a - b) + 2 ^ 64"
    using assms(1) by simp
  then have "ulong_sub a b = ((a - b) + 2 ^ 64) mod 2 ^ 64"
    by (simp only: ulong_sub_def)
  also have "\<dots> = (a - b) mod 2 ^ 64"
    by (rule mod_add_self2)
  also have "\<dots> = a - b"
    using assms(2) by (intro mod_less) simp
  finally show ?thesis .
qed

lemma scan_columns_no_budget: "scan_columns src rows width 0 x c rtrim = Inr rtrim"
  by (subst scan_columns.simps) simp

lemmas trim_eval = trim_to_width_def ulong_sub_def to_long_def scan_columns.simps
  scan_column.simps trim_rows.simps memcpy_def Let_def

section \<open>A bitmap that already has the cell's width\<close>

text \<open>
  C3, as the claim states it: a call with \<open>width = cell_width\<close> must fail. The code has
  no such check: \<open>extra\<close> is 0, which is below every \<open>cell_width > 0\<close>, and the call
  returns a bitmap. Here a bitmap of one pixel is fitted to a cell one pixel wide.
\<close>

theorem trim_to_width_same_width_returns:
  "trim_to_width True stale one_pixel 1 = Inr one_pixel"
  by (simp add: trim_eval one_pixel_def)

text \<open>
  C3, amended: when the bitmap's width is the cell's width and is not zero, the call
  (its allocation granted) succeeds, trims nothing and returns the pixels of the input,
  row for row; only the pitch is set to the cell's width.
\<close>

theorem trim_to_width_same_width_copies:
  assumes w: "bm_width bitmap = cell_width" and pos: "0 < cell_width"
    and ul: "cell_width < 2 ^ 64"
    and len: "length (bm_buffer bitmap) = bm_rows bitmap * cell_width"
  shows "trim_to_width True fresh bitmap cell_width = Inr (bitmap\<lparr>bm_pitch := cell_width\<rparr>)"
proof -
  let ?src = "bm_buffer bitmap" and ?rows = "bm_rows bitmap"
  let ?d0 = "map fresh [0..<cell_width * ?rows]"
  have extra: "ulong_sub (bm_width bitmap) cell_width = 0"
    using w ul by (simp add: ulong_sub_small)
  have l0: "length ?d0 = ?rows * cell_width"
    by (simp add: mult.commute)
  from trim_rows_spec [OF l0 len, of 0 0]
  obtain d' where d': "trim_rows (Some ?d0) ?src 0 cell_width cell_width ?rows 0 = Inr (Some d')"
    "length d' = length ?d0"
    "\<forall>j<cell_width. \<forall>r<?rows. d' ! (r * cell_width + j) = ?src ! (0 + r * cell_width + j)"
    by auto
  from d'(2) l0 have ld: "length d' = ?rows * cell_width"
    by (rule trans)
  have "d' = ?src"
  proof (rule nth_equalityI)
    show "length d' = length ?src" using ld len by simp
  next
    fix p assume "p < length d'"
    then have p: "p < ?rows * cell_width" using ld by simp
    then have "p div cell_width < ?rows"
      using pos by (simp add: less_mult_imp_div_less)
    moreover have "p mod cell_width < cell_width" using pos by simp
    ultimately have "d' ! (p div cell_width * cell_width + p mod cell_width)
                       = ?src ! (0 + p div cell_width * cell_width + p mod cell_width)"
      using d'(3) by blast
    then show "d' ! p = ?src ! p" by simp
  qed
  with d'(1) have "trim_rows (Some ?d0) ?src 0 cell_width cell_width ?rows 0 = Inr (Some ?src)"
    by simp
  then show ?thesis
    using extra pos w by (simp add: trim_to_width_def scan_columns_no_budget)
qed

theorem trim_to_width_same_width_copies_witness:
  "bm_width one_pixel = 1 \<and> length (bm_buffer one_pixel) = bm_rows one_pixel * 1 \<and>
   trim_to_width True stale one_pixel 1 = Inr (one_pixel\<lparr>bm_pitch := 1\<rparr>)"
proof -
  have a: "bm_width one_pixel = 1" and b: "length (bm_buffer one_pixel) = bm_rows one_pixel * 1"
    by (simp_all add: one_pixel_def)
  show ?thesis
    using trim_to_width_same_width_copies [OF a _ _ b, of stale] a b by simp
qed

section \<open>Trimming a bitmap that is too wide\<close>

text \<open>
  C4. For a bitmap whose rows lie one after the other in its buffer and whose width is
  between the cell's width and its double (and fits a \<^verbatim>\<open>long\<close>), the scan of the columns
  returns the spec's right trim: the number of consecutive blank columns from the
  rightmost one leftwards, capped at \<open>extra = width - cell_width\<close>. With
  \<open>left_trim = extra - right_trim\<close>, the call (its allocation granted) returns a bitmap of
  the same rows whose row \<open>y\<close> is the \<open>cell_width\<close> bytes of row \<open>y\<close> of the source from
  column \<open>left_trim\<close> on, so that source column \<open>c\<close> is found at index \<open>c - left_trim\<close>.
\<close>

theorem trim_to_width_keeps_window:
  assumes range: "cell_width < bm_width bitmap" "bm_width bitmap < 2 * cell_width"
    and long: "bm_width bitmap < 2 ^ 63"
    and len: "length (bm_buffer bitmap) = bm_rows bitmap * bm_width bitmap"
    and rt: "right_trim =
               spec_right_trim (bm_buffer bitmap) (bm_rows bitmap) (bm_width bitmap) cell_width"
    and lt: "left_trim = (bm_width bitmap - cell_width) - right_trim"
  shows "scan_columns (bm_buffer bitmap) (bm_rows bitmap) (bm_width bitmap)
           (ulong_sub (bm_width bitmap) cell_width) (to_long (ulong_sub (bm_width bitmap) 1))
           False 0 = Inr right_trim \<and>
         left_trim + cell_width \<le> bm_width bitmap \<and>
         (\<exists>dest. trim_to_width True fresh bitmap cell_width
                   = Inr (bitmap\<lparr>bm_width := cell_width, bm_pitch := cell_width,
                                 bm_buffer := dest\<rparr>) \<and>
                 length dest = bm_rows bitmap * cell_width \<and>
                 (\<forall>y<bm_rows bitmap.
                    take cell_width (drop (y * cell_width) dest) =
                    take cell_width (drop (y * bm_width bitmap + left_trim) (bm_buffer bitmap))) \<and>
                 (\<forall>y<bm_rows bitmap. \<forall>c. left_trim \<le> c \<and> c < left_trim + cell_width \<longrightarrow>
                    dest ! (y * cell_width + (c - left_trim)) =
                    bm_buffer bitmap ! (y * bm_width bitmap + c)))"
proof -
  let ?src = "bm_buffer bitmap" and ?rows = "bm_rows bitmap" and ?width = "bm_width bitmap"
  let ?extra = "?width - cell_width"
  let ?d0 = "map fresh [0..<cell_width * ?rows]"
  have w64: "?width < 2 ^ 64"
    using long by (rule less_trans) simp
  have extra: "ulong_sub ?width cell_width = ?extra"
    using range(1) w64 by (simp add: ulong_sub_small)
  have small: "\<not> cell_width \<le> ?extra"
    using range by simp
  have x0: "to_long (ulong_sub ?width 1) = int ?width - 1"
    using range(1) long w64 by (simp add: ulong_sub_small to_long_def of_nat_diff)
  have "scan_columns ?src ?rows ?width ?extra (int ?width - 1) False 0
          = Inr (if False then 0
                 else min ?extra (0 + length (takeWhile (blank_column ?src ?rows ?width)
                                               (rev [0..<nat (int ?width - 1 + 1)]))))"
    by (rule scan_columns_spec [OF len]) simp_all
  then have scan: "scan_columns ?src ?rows ?width ?extra (int ?width - 1) False 0 = Inr right_trim"
    by (simp add: rt spec_right_trim_def blank_count_def)
  have rle: "right_trim \<le> ?extra"
    by (simp add: rt spec_right_trim_def)
  have fit: "left_trim + cell_width \<le> ?width"
    using lt range(1) by simp
  have l0: "length ?d0 = ?rows * cell_width"
    by (simp add: mult.commute)
  from trim_rows_spec [OF l0 len fit, of 0]
  obtain d' where d': "trim_rows (Some ?d0) ?src left_trim ?width cell_width ?rows 0 = Inr (Some d')"
    "length d' = length ?d0"
    "\<forall>j<cell_width. \<forall>r<?rows. d' ! (r * cell_width + j) = ?src ! (left_trim + r * ?width + j)"
    by auto
  from d'(2) l0 have ld: "length d' = ?rows * cell_width"
    by (rule trans)
  have run: "trim_to_width True fresh bitmap cell_width
               = Inr (bitmap\<lparr>bm_width := cell_width, bm_pitch := cell_width, bm_buffer := d'\<rparr>)"
    using extra small x0 scan rle d'(1) lt
    by (simp add: trim_to_width_def min_absorb2)
  have row: "take cell_width (drop (y * cell_width) d') =
             take cell_width (drop (y * ?width + left_trim) ?src)" if y: "y < ?rows" for y
  proof (rule nth_equalityI)
    have "Suc y * cell_width \<le> ?rows * cell_width" "Suc y * ?width \<le> ?rows * ?width"
      using y by (simp_all only: mult_le_mono1 Suc_leI)
    then have a: "y * cell_width + cell_width \<le> length d'"
      and b: "y * ?width + left_trim + cell_width \<le> length ?src"
      using ld len fit by simp_all
    then show "length (take cell_width (drop (y * cell_width) d')) =
               length (take cell_width (drop (y * ?width + left_trim) ?src))"
      by simp
    fix j assume "j < length (take cell_width (drop (y * cell_width) d'))"
    then have j: "j < cell_width" by simp
    then have "d' ! (y * cell_width + j) = ?src ! (left_trim + y * ?width + j)"
      using d'(3) y by blast
    then show "take cell_width (drop (y * cell_width) d') ! j =
               take cell_width (drop (y * ?width + left_trim) ?src) ! j"
      using j a b by (simp add: add.commute add.left_commute)
  qed
  have col: "d' ! (y * cell_width + (c - left_trim)) = ?src ! (y * ?width + c)"
    if "y < ?rows" "left_trim \<le> c \<and> c < left_trim + cell_width" for y c
  proof -
    have "c - left_trim < cell_width" using that(2) by auto
    then have "d' ! (y * cell_width + (c - left_trim)) = ?src ! (left_trim + y * ?width + (c - left_trim))"
      using d'(3) that(1) by blast
    also have "left_trim + y * ?width + (c - left_trim) = y * ?width + c"
      using that(2) by simp
    finally show ?thesis .
  qed
  have "scan_columns ?src ?rows ?width (ulong_sub ?width cell_width)
          (to_long (ulong_sub ?width 1)) False 0 = Inr right_trim"
    using scan extra x0 by simp
  moreover have "\<exists>dest. trim_to_width True fresh bitmap cell_width
                   = Inr (bitmap\<lparr>bm_width := cell_width, bm_pitch := cell_width,
                                 bm_buffer := dest\<rparr>) \<and>
                 length dest = ?rows * cell_width \<and>
                 (\<forall>y<?rows.
                    take cell_width (drop (y * cell_width) dest) =
                    take cell_width (drop (y * ?width + left_trim) ?src)) \<and>
                 (\<forall>y<?rows. \<forall>c. left_trim \<le> c \<and> c < left_trim + cell_width \<longrightarrow>
                    dest ! (y * cell_width + (c - left_trim)) = ?src ! (y * ?width + c))"
    using run ld row col by (intro exI [of _ d']) blast
  ultimately show ?thesis
    using fit by blast
qed

theorem trim_to_width_keeps_window_witness:
  "8 < bm_width line_of_ten \<and> bm_width line_of_ten < 2 * 8 \<and>
   length (bm_buffer line_of_ten) = bm_rows line_of_ten * bm_width line_of_ten \<and>
   spec_right_trim (bm_buffer line_of_ten) (bm_rows line_of_ten) (bm_width line_of_ten) 8 = 0 \<and>
   (\<exists>dest. trim_to_width True stale line_of_ten 8
             = Inr (line_of_ten\<lparr>bm_width := 8, bm_pitch := 8, bm_buffer := dest\<rparr>) \<and>
           take 8 (drop (0 * 8) dest) = [0, 255, 0, 0, 0, 0, 0, 255])"
proof -
  have range: "8 < bm_width line_of_ten" "bm_width line_of_ten < 2 * 8"
    and long: "bm_width line_of_ten < 2 ^ 63"
    and len: "length (bm_buffer line_of_ten) = bm_rows line_of_ten * bm_width line_of_ten"
    by (simp_all add: line_of_ten_def)
  have "\<not> blank_column (bm_buffer line_of_ten) (bm_rows line_of_ten) (bm_width line_of_ten) 9"
    by (simp add: blank_column_def line_of_ten_def)
  moreover have "[0..<Suc 9] = [0..<9] @ [9]"
    by (rule upt_Suc_append) simp
  then have "rev [0..<bm_width line_of_ten] = 9 # rev [0..<9]"
    by (simp add: line_of_ten_def)
  ultimately have "blank_count (bm_buffer line_of_ten) (bm_rows line_of_ten) (bm_width line_of_ten) = 0"
    by (simp add: blank_count_def)
  then have rt: "0 = spec_right_trim (bm_buffer line_of_ten) (bm_rows line_of_ten)
                       (bm_width line_of_ten) 8"
    by (simp add: spec_right_trim_def)
  have lt: "2 = (bm_width line_of_ten - 8) - 0"
    by (simp add: line_of_ten_def)
  from trim_to_width_keeps_window [OF range long len rt lt, of stale]
  obtain dest where dest: "trim_to_width True stale line_of_ten 8
             = Inr (line_of_ten\<lparr>bm_width := 8, bm_pitch := 8, bm_buffer := dest\<rparr>)"
    "\<forall>y<bm_rows line_of_ten. take 8 (drop (y * 8) dest) =
        take 8 (drop (y * bm_width line_of_ten + 2) (bm_buffer line_of_ten))"
    by blast
  have "take 8 (drop (0 * 8) dest) = take 8 (drop (0 * bm_width line_of_ten + 2) (bm_buffer line_of_ten))"
    using dest(2) by (simp add: line_of_ten_def)
  also have "\<dots> = [0, 255, 0, 0, 0, 0, 0, 255]"
    by (simp add: line_of_ten_def)
  finally show ?thesis
    using range len rt dest(1) by auto
qed

end
